theory Spec2Isabelle
  imports Complex_Main "HOL-Library.Sublist" "HOL-Library.Log_Nat"
begin

section \<open>Python values used by \<open>log_analyzer.py\<close>\<close>

text \<open>
  Text is modelled as \<^typ>\<open>string\<close>, one \<^typ>\<open>char\<close> per code point of the ASCII range
  (code points 0 to 127).  The character tests and case mappings below are Python's on
  that range; a \<^typ>\<open>char\<close> above 127 is in no character class and has no case.
\<close>

datatype py_error = ValueError | ZeroDivisionError | OverflowError

definition ascii_lowercase :: string where
  "ascii_lowercase = ''abcdefghijklmnopqrstuvwxyz''"

definition ascii_uppercase :: string where
  "ascii_uppercase = ''ABCDEFGHIJKLMNOPQRSTUVWXYZ''"

definition digits :: string where
  "digits = ''0123456789''"

definition whitespace :: string where
  \<comment> \<open>TAB, LF, VT, FF, CR, FS, GS, RS, US, SPACE: the ASCII characters of \<open>str.isspace\<close>\<close>
  "whitespace = [CHR 0x09, CHR 0x0A, CHR 0x0B, CHR 0x0C, CHR 0x0D,
                 CHR 0x1C, CHR 0x1D, CHR 0x1E, CHR 0x1F, CHR 0x20]"

definition isspace :: "char \<Rightarrow> bool" where
  \<comment> \<open>\<open>str.isspace\<close> of one character, and the class \<open>\s\<close>\<close>
  "isspace c = (c \<in> set whitespace)"

definition isdigit :: "char \<Rightarrow> bool" where
  \<comment> \<open>the class \<open>\d\<close>\<close>
  "isdigit c = (c \<in> set digits)"

definition isword :: "char \<Rightarrow> bool" where
  \<comment> \<open>the class \<open>\w\<close>: letters, digits and the underscore\<close>
  "isword c = (c \<in> set (ascii_lowercase @ ascii_uppercase @ digits @ ''_''))"

definition upper_char :: "char \<Rightarrow> char" where
  "upper_char c =
     (case map_of (zip ascii_lowercase ascii_uppercase) c of None \<Rightarrow> c | Some u \<Rightarrow> u)"

definition lower_char :: "char \<Rightarrow> char" where
  "lower_char c =
     (case map_of (zip ascii_uppercase ascii_lowercase) c of None \<Rightarrow> c | Some l \<Rightarrow> l)"

definition upper :: "string \<Rightarrow> string" where
  "upper s = map upper_char s"

definition lower :: "string \<Rightarrow> string" where
  "lower s = map lower_char s"

definition strip :: "string \<Rightarrow> string" where
  "strip s = rev (dropWhile isspace (rev (dropWhile isspace s)))"

text \<open>\<open>sub in s\<close> on strings is \<^term>\<open>sublist sub s\<close>: a contiguous occurrence.\<close>

definition str_truthy :: "string option \<Rightarrow> bool" where
  \<comment> \<open>truth value of an attribute that is \<open>None\<close> or a string\<close>
  "str_truthy v = (case v of None \<Rightarrow> False | Some s \<Rightarrow> s \<noteq> [])"

primrec list_index :: "'a list \<Rightarrow> 'a \<Rightarrow> py_error + nat" where
  "list_index [] x = Inl ValueError"
| "list_index (y # ys) x =
     (if y = x then Inr 0
      else (case list_index ys x of Inl e \<Rightarrow> Inl e | Inr i \<Rightarrow> Inr (Suc i)))"

text \<open>
  A log entry is a dictionary from field names to text.  Python dictionaries keep
  insertion order, so the model is an association list; \<open>d.get(k, default)\<close> is
  \<open>dict_get\<close>.
\<close>

type_synonym log_entry = "(string \<times> string) list"

definition dict_get :: "log_entry \<Rightarrow> string \<Rightarrow> string \<Rightarrow> string" where
  "dict_get d k dflt = (case map_of d k of None \<Rightarrow> dflt | Some v \<Rightarrow> v)"

text \<open>\<open>collections.deque(maxlen=n)\<close>: appending to a full deque discards the leftmost item.\<close>

datatype 'a deque = Deque (maxlen: nat) (items: "'a list")

definition deque_append :: "'a deque \<Rightarrow> 'a \<Rightarrow> 'a deque" where
  "deque_append d x =
     (let xs = items d @ [x]
      in Deque (maxlen d) (if maxlen d < length xs then tl xs else xs))"

text \<open>\<open>collections.defaultdict(int)\<close> and the statement \<open>d[k] += 1\<close>.\<close>

definition defaultdict_incr :: "(string \<rightharpoonup> nat) \<Rightarrow> string \<Rightarrow> (string \<rightharpoonup> nat)" where
  "defaultdict_incr d k = d(k \<mapsto> (case d k of None \<Rightarrow> 0 | Some n \<Rightarrow> n) + 1)"

section \<open>PerformanceStats\<close>

text \<open>
  The counters start at 0 and are only ever incremented, so they are natural numbers.
  Clock readings (\<open>time.time()\<close>) are passed in by the caller.
\<close>

record PerformanceStats =
  window_size :: nat
  log_count :: nat
  error_count :: nat
  warning_count :: nat
  service_stats :: "string \<rightharpoonup> nat"
  level_stats :: "string \<rightharpoonup> nat"
  recent_logs :: "log_entry deque"
  throughput :: "(rat \<times> nat) deque"
  start_time :: rat

definition PerformanceStats_init :: "nat \<Rightarrow> rat \<Rightarrow> PerformanceStats" where
  "PerformanceStats_init ws now =
     \<lparr> window_size = ws, log_count = 0, error_count = 0, warning_count = 0,
       service_stats = Map.empty, level_stats = Map.empty,
       recent_logs = Deque 1000 [], throughput = Deque ws [], start_time = now \<rparr>"

definition update :: "rat \<Rightarrow> log_entry \<Rightarrow> PerformanceStats \<Rightarrow> PerformanceStats" where
  "update current_time log_entry s =
     (let level = upper (dict_get log_entry ''level'' ''INFO'');
          service = dict_get log_entry ''service'' ''unknown''
      in s\<lparr> log_count := log_count s + 1,
            recent_logs := deque_append (recent_logs s) log_entry,
            level_stats := defaultdict_incr (level_stats s) level,
            service_stats := defaultdict_incr (service_stats s) service,
            error_count :=
              (if level \<in> set [''ERROR'', ''CRITICAL'', ''ALERT'', ''EMERGENCY'']
               then error_count s + 1 else error_count s),
            warning_count :=
              (if level \<in> set [''ERROR'', ''CRITICAL'', ''ALERT'', ''EMERGENCY'']
               then warning_count s
               else if level = ''WARNING'' then warning_count s + 1 else warning_count s),
            throughput := deque_append (throughput s) (current_time, 1) \<rparr>)"

text \<open>A sequence of \<open>update\<close> calls, each with the clock reading it sees.\<close>

fun updates :: "PerformanceStats \<Rightarrow> (rat \<times> log_entry) list \<Rightarrow> PerformanceStats" where
  "updates s [] = s"
| "updates s ((t, e) # evs) = updates (update t e s) evs"

section \<open>LogFilter\<close>

record LogFilter =
  severity_threshold :: string
  service_filter :: "string option"
  keyword_filter :: "string option"
  exclude_keywords :: "string list"

definition LogFilter_init :: LogFilter where
  "LogFilter_init =
     \<lparr> severity_threshold = ''DEBUG'', service_filter = None, keyword_filter = None,
       exclude_keywords = [] \<rparr>"

definition set_severity :: "LogFilter \<Rightarrow> string \<Rightarrow> LogFilter" where
  "set_severity f level = f\<lparr> severity_threshold := upper level \<rparr>"

definition set_service :: "LogFilter \<Rightarrow> string \<Rightarrow> LogFilter" where
  "set_service f service =
     f\<lparr> service_filter := (if service \<noteq> [] then Some (lower service) else None) \<rparr>"

definition set_keyword :: "LogFilter \<Rightarrow> string \<Rightarrow> LogFilter" where
  "set_keyword f keyword =
     f\<lparr> keyword_filter := (if keyword \<noteq> [] then Some (lower keyword) else None) \<rparr>"

definition add_exclude_keyword :: "LogFilter \<Rightarrow> string \<Rightarrow> LogFilter" where
  "add_exclude_keyword f keyword =
     (if keyword \<noteq> [] \<and> keyword \<notin> set (exclude_keywords f)
      then f\<lparr> exclude_keywords := exclude_keywords f @ [lower keyword] \<rparr>
      else f)"

definition filter_severity_levels :: "string list" where
  \<comment> \<open>the local list \<open>severity_levels\<close> of \<open>matches_filter\<close>\<close>
  "filter_severity_levels =
     [''DEBUG'', ''INFO'', ''NOTICE'', ''WARNING'', ''ERROR'', ''CRITICAL'', ''ALERT'', ''EMERGENCY'']"

text \<open>
  The \<open>try\<close> block of \<open>matches_filter\<close> looks up the entry's level first and the threshold
  second; a \<open>ValueError\<close> of either lookup is caught and the severity stage is passed.
\<close>

definition matches_filter :: "LogFilter \<Rightarrow> log_entry \<Rightarrow> bool" where
  "matches_filter f log_entry =
     (let level = upper (dict_get log_entry ''level'' ''INFO'');
          service = lower (dict_get log_entry ''service'' '''');
          message = lower (dict_get log_entry ''message'' '''')
      in if (case list_index filter_severity_levels level of
               Inl e \<Rightarrow> False
             | Inr i \<Rightarrow>
                 (case list_index filter_severity_levels (severity_threshold f) of
                    Inl e \<Rightarrow> False
                  | Inr j \<Rightarrow> j < i))
         then False
         else if str_truthy (service_filter f) \<and> \<not> sublist (the (service_filter f)) service
         then False
         else if str_truthy (keyword_filter f) \<and> \<not> sublist (the (keyword_filter f)) message
         then False
         else if list_ex (\<lambda>exclude. sublist exclude message) (exclude_keywords f)
         then False
         else True)"

section \<open>Regular expressions of the four log formats\<close>

text \<open>
  The four patterns of \<open>LogParser\<close> are sequences of quantified single-character classes,
  some of them inside named groups; no group is nested or repeated, and there is no
  alternation.  \<open>re.match\<close> on such a pattern is a backtracking search anchored at the
  start of the text: a greedy quantifier tries the longest run first and gives characters
  back one at a time, a lazy one tries the shortest run first and takes one more at a
  time, and the first way through the whole pattern is the match.  Text after the match
  is ignored.
\<close>

datatype cclass = Word | Space | Digit | Dot | Lit char

primrec in_class :: "cclass \<Rightarrow> char \<Rightarrow> bool" where
  "in_class Word c = isword c"
| "in_class Space c = isspace c"
| "in_class Digit c = isdigit c"
| "in_class Dot c = (c \<noteq> CHR 0x0A)"
| "in_class (Lit a) c = (c = a)"

text \<open>
  \<open>Rep c lo hi greedy\<close>: between \<open>lo\<close> and \<open>hi\<close> characters of class \<open>c\<close>
  (\<open>hi = None\<close>: no upper bound).
\<close>

datatype atom = Rep cclass nat "nat option" bool

definition rx_one :: "cclass \<Rightarrow> atom" where
  "rx_one c = Rep c 1 (Some 1) True"

definition rx_opt :: "cclass \<Rightarrow> atom" where
  \<comment> \<open>\<open>c?\<close>\<close>
  "rx_opt c = Rep c 0 (Some 1) True"

definition rx_star :: "cclass \<Rightarrow> atom" where
  \<comment> \<open>\<open>c*\<close>\<close>
  "rx_star c = Rep c 0 None True"

definition rx_plus :: "cclass \<Rightarrow> atom" where
  \<comment> \<open>\<open>c+\<close>\<close>
  "rx_plus c = Rep c 1 None True"

definition rx_lazy_star :: "cclass \<Rightarrow> atom" where
  \<comment> \<open>\<open>c*?\<close>\<close>
  "rx_lazy_star c = Rep c 0 None False"

definition rx_times :: "nat \<Rightarrow> cclass \<Rightarrow> atom" where
  \<comment> \<open>\<open>c{n}\<close>\<close>
  "rx_times n c = Rep c n (Some n) True"

definition rx_between :: "nat \<Rightarrow> nat \<Rightarrow> cclass \<Rightarrow> atom" where
  \<comment> \<open>\<open>c{m,n}\<close>\<close>
  "rx_between m n c = Rep c m (Some n) True"

definition rx_lits :: "string \<Rightarrow> atom list" where
  \<comment> \<open>literal text\<close>
  "rx_lits s = map (\<lambda>a. rx_one (Lit a)) s"

datatype piece = Plain "atom list" | Named string "atom list"

type_synonym regex = "piece list"

primrec first_some :: "('a \<Rightarrow> 'b option) \<Rightarrow> 'a list \<Rightarrow> 'b option" where
  "first_some f [] = None"
| "first_some f (x # xs) = (case f x of Some r \<Rightarrow> Some r | None \<Rightarrow> first_some f xs)"

definition run_length :: "cclass \<Rightarrow> nat option \<Rightarrow> string \<Rightarrow> nat" where
  \<comment> \<open>the longest run a quantifier can take at the start of \<open>s\<close>\<close>
  "run_length c hi s =
     (let n = length (takeWhile (in_class c) s)
      in case hi of None \<Rightarrow> n | Some h \<Rightarrow> min n h)"

definition counts :: "nat \<Rightarrow> nat \<Rightarrow> bool \<Rightarrow> nat list" where
  \<comment> \<open>the run lengths from \<open>lo\<close> to \<open>n\<close> in the order the quantifier tries them\<close>
  "counts lo n greedy = (if greedy then rev [lo..<Suc n] else [lo..<Suc n])"

text \<open>
  \<open>match_atoms as k s\<close> matches the atoms at the start of \<open>s\<close> and hands the rest of the
  text to \<open>k\<close>, the match of what follows in the pattern; when \<open>k\<close> fails the search
  backtracks into the atoms.
\<close>

primrec match_atoms :: "atom list \<Rightarrow> (string \<Rightarrow> 'r option) \<Rightarrow> string \<Rightarrow> 'r option" where
  "match_atoms [] k s = k s"
| "match_atoms (a # as) k s =
     (case a of Rep c lo hi greedy \<Rightarrow>
        first_some (\<lambda>n. match_atoms as k (drop n s)) (counts lo (run_length c hi s) greedy))"

primrec match_pieces :: "piece list \<Rightarrow> string \<Rightarrow> log_entry \<Rightarrow> log_entry option" where
  "match_pieces [] s groups = Some groups"
| "match_pieces (p # ps) s groups =
     (case p of
        Plain as \<Rightarrow> match_atoms as (\<lambda>s'. match_pieces ps s' groups) s
      | Named name as \<Rightarrow>
          match_atoms as
            (\<lambda>s'. match_pieces ps s' (groups @ [(name, take (length s - length s') s)])) s)"

definition re_match :: "regex \<Rightarrow> string \<Rightarrow> log_entry option" where
  \<comment> \<open>\<open>pattern.match(s)\<close>, and \<open>groupdict()\<close> of the match\<close>
  "re_match r s = match_pieces r s []"

section \<open>LogParser\<close>

definition syslog_re :: regex where
  "syslog_re =
     [Named ''timestamp''
        [rx_times 3 Word, rx_plus Space, rx_between 1 2 Digit, rx_plus Space,
         rx_times 2 Digit, rx_one (Lit CHR '':''), rx_times 2 Digit, rx_one (Lit CHR '':''),
         rx_times 2 Digit],
      Plain [rx_plus Space, rx_plus Word, rx_plus Space],
      Named ''service'' [rx_plus Word],
      Plain [rx_opt (Lit CHR ''[''), rx_star Digit, rx_opt (Lit CHR '']''), rx_one (Lit CHR '':''),
             rx_plus Space],
      Named ''level'' [rx_plus Word],
      Plain [rx_opt (Lit CHR '':''), rx_plus Space],
      Named ''message'' [rx_star Dot]]"

definition apache_re :: regex where
  "apache_re =
     [Plain [rx_one (Lit CHR ''['')],
      Named ''timestamp'' [rx_lazy_star Dot],
      Plain [rx_one (Lit CHR '']''), rx_plus Space, rx_one (Lit CHR ''['')],
      Named ''level'' [rx_lazy_star Dot],
      Plain ([rx_one (Lit CHR '']''), rx_plus Space, rx_one (Lit CHR ''['')] @
             rx_lits ''pid '' @
             [rx_plus Digit, rx_one (Lit CHR '']''), rx_plus Space, rx_one (Lit CHR ''['')] @
             rx_lits ''client '' @ [rx_lazy_star Dot, rx_one (Lit CHR '']''), rx_plus Space]),
      Named ''message'' [rx_star Dot]]"

definition nginx_re :: regex where
  "nginx_re =
     [Named ''timestamp''
        [rx_times 4 Digit, rx_one (Lit CHR ''/''), rx_times 2 Digit, rx_one (Lit CHR ''/''),
         rx_times 2 Digit, rx_plus Space,
         rx_times 2 Digit, rx_one (Lit CHR '':''), rx_times 2 Digit, rx_one (Lit CHR '':''),
         rx_times 2 Digit],
      Plain [rx_plus Space, rx_one (Lit CHR ''['')],
      Named ''level'' [rx_lazy_star Dot],
      Plain [rx_one (Lit CHR '']''), rx_plus Space, rx_plus Digit, rx_one (Lit CHR ''#''),
             rx_plus Digit, rx_one (Lit CHR '':''), rx_plus Space, rx_one (Lit CHR ''*''),
             rx_plus Digit, rx_plus Space],
      Named ''message'' [rx_star Dot]]"

definition custom_re :: regex where
  "custom_re =
     [Named ''timestamp'' [rx_lazy_star Dot],
      Plain [rx_plus Space, rx_one (Lit CHR ''-''), rx_plus Space],
      Named ''level'' [rx_plus Word],
      Plain [rx_plus Space, rx_one (Lit CHR ''-''), rx_plus Space],
      Named ''service'' [rx_plus Word],
      Plain [rx_plus Space, rx_one (Lit CHR ''-''), rx_plus Space],
      Named ''message'' [rx_star Dot]]"

definition patterns :: "(string \<times> regex) list" where
  "patterns =
     [(''syslog'', syslog_re), (''apache'', apache_re), (''nginx'', nginx_re),
      (''custom'', custom_re)]"

definition severity_levels :: "(string \<times> nat) list" where
  "severity_levels =
     [(''EMERGENCY'', 0), (''ALERT'', 1), (''CRITICAL'', 2), (''ERROR'', 3), (''WARNING'', 4),
      (''NOTICE'', 5), (''INFO'', 6), (''DEBUG'', 7)]"

text \<open>
  The wall clock: \<open>datetime.now()\<close> is read by the caller and passed in.
  \<open>strftime\<close> is \<open>strftime('%Y-%m-%d %H:%M:%S')\<close> for a date of the years 1000 to 9999.
\<close>

record datetime =
  year :: nat
  month :: nat
  day :: nat
  hour :: nat
  minute :: nat
  second :: nat

definition digit_char :: "nat \<Rightarrow> char" where
  "digit_char n = digits ! (n mod 10)"

definition pad2 :: "nat \<Rightarrow> string" where
  "pad2 n = [digit_char (n div 10), digit_char n]"

definition pad4 :: "nat \<Rightarrow> string" where
  "pad4 n = [digit_char (n div 1000), digit_char (n div 100), digit_char (n div 10), digit_char n]"

definition strftime :: "datetime \<Rightarrow> string" where
  "strftime d =
     pad4 (year d) @ ''-'' @ pad2 (month d) @ ''-'' @ pad2 (day d) @ '' '' @
     pad2 (hour d) @ '':'' @ pad2 (minute d) @ '':'' @ pad2 (second d)"

definition parse_line :: "datetime \<Rightarrow> string \<Rightarrow> string \<Rightarrow> log_entry option" where
  "parse_line now line log_type =
     (case (case map_of patterns log_type of
              None \<Rightarrow> None
            | Some pattern \<Rightarrow> re_match pattern (strip line)) of
        Some groupdict \<Rightarrow> Some groupdict
      | None \<Rightarrow>
          (case find (\<lambda>level. sublist level (upper line)) (map fst severity_levels) of
             Some level \<Rightarrow>
               Some [(''timestamp'', strftime now), (''level'', level),
                     (''service'', ''unknown''), (''message'', strip line)]
           | None \<Rightarrow> None))"

section \<open>RealTimeLogAnalyzer: the ingestion loop\<close>

text \<open>
  The body of the loop of \<open>tail_log\<close> for one line that \<open>readline\<close> returned (the empty
  string when the file has no new line).
\<close>

definition tail_log_line ::
    "datetime \<Rightarrow> rat \<Rightarrow> string \<Rightarrow> string \<Rightarrow> PerformanceStats \<Rightarrow> PerformanceStats" where
  "tail_log_line now current_time log_type line stats =
     (if line \<noteq> [] then
        (case parse_line now line log_type of
           None \<Rightarrow> stats
         | Some parsed \<Rightarrow> if parsed \<noteq> [] then update current_time parsed stats else stats)
      else stats)"

section \<open>Notions used to state the properties\<close>

text \<open>The names of the groups of a pattern, in the order of \<open>groupdict()\<close>.\<close>

primrec group_names :: "regex \<Rightarrow> string list" where
  "group_names [] = []"
| "group_names (p # ps) =
     (case p of Plain as \<Rightarrow> group_names ps | Named name as \<Rightarrow> name # group_names ps)"

text \<open>The least number of characters a sequence of atoms takes, and that of each group.\<close>

fun atom_min :: "atom \<Rightarrow> nat" where
  "atom_min (Rep c lo hi greedy) = lo"

definition min_len :: "atom list \<Rightarrow> nat" where
  "min_len as = sum_list (map atom_min as)"

primrec group_mins :: "regex \<Rightarrow> nat list" where
  "group_mins [] = []"
| "group_mins (p # ps) =
     (case p of Plain as \<Rightarrow> group_mins ps | Named name as \<Rightarrow> min_len as # group_mins ps)"

text \<open>Text that does not start, or does not end, with white space.\<close>

definition starts_clean :: "string \<Rightarrow> bool" where
  "starts_clean s = (s = [] \<or> \<not> isspace (hd s))"

definition ends_clean :: "string \<Rightarrow> bool" where
  "ends_clean s = (s = [] \<or> \<not> isspace (last s))"

text \<open>
  The first step of \<open>parse_line\<close>: the groups of the match of the format's pattern against
  the trimmed line, \<open>None\<close> when the format has no pattern or the pattern does not match.
\<close>

definition grammar_match :: "string \<Rightarrow> string \<Rightarrow> log_entry option" where
  "grammar_match log_type line =
     (case map_of patterns log_type of
        None \<Rightarrow> None
      | Some pattern \<Rightarrow> re_match pattern (strip line))"

section \<open>PerformanceStats.get_error_rate\<close>

text \<open>
  A Python \<open>float\<close> is an IEEE 754 binary64 number: 53 significant bits, the least
  exponent of a normal number is \<open>-1022\<close>, numbers below \<open>2 powi -1022\<close> are spaced
  \<open>2 powi -1074\<close> apart, and a result that rounds to \<open>2 powi 1024\<close> or more overflows.
  Only floats that are not negative arise here; a finite one is represented by the
  rational number it denotes.  Arithmetic rounds the exact result to the nearest float,
  a tie going to the float with the even significand.
\<close>

datatype pyfloat = Finite rat | Infinity

datatype pynum = PyInt int | PyFloat pyfloat

definition round_half_even :: "rat \<Rightarrow> int" where
  "round_half_even x =
     (let f = \<lfloor>x\<rfloor>; d = x - of_int f
      in if d < 1 / 2 then f else if 1 / 2 < d then f + 1 else if even f then f else f + 1)"

definition ilog2 :: "rat \<Rightarrow> int" where
  \<comment> \<open>for \<open>x > 0\<close>, the exponent \<open>e\<close> with \<open>2 powi e \<le> x < 2 powi (e + 1)\<close>\<close>
  "ilog2 x =
     (case quotient_of x of (p, q) \<Rightarrow>
        let e = bitlen p - bitlen q in if 2 powi e \<le> x then e else e - 1)"

definition round_double :: "rat \<Rightarrow> rat" where
  \<comment> \<open>the float nearest to \<open>x \<ge> 0\<close>, before the overflow test\<close>
  "round_double x =
     (if x = 0 then 0
      else let e = max (ilog2 x) (- 1022); ulp = 2 powi (e - 52)
           in of_int (round_half_even (x / ulp)) * ulp)"

definition int_true_div :: "nat \<Rightarrow> nat \<Rightarrow> py_error + rat" where
  \<comment> \<open>\<open>a / b\<close> on integers: the correctly rounded quotient, or an exception\<close>
  "int_true_div a b =
     (if b = 0 then Inl ZeroDivisionError
      else let q = round_double (of_int (int a) / of_int (int b))
           in if 2 ^ 1024 \<le> q then Inl OverflowError else Inr q)"

definition float_mul :: "rat \<Rightarrow> rat \<Rightarrow> pyfloat" where
  \<comment> \<open>\<open>x * y\<close> on finite floats that are not negative\<close>
  "float_mul x y =
     (let p = round_double (x * y) in if 2 ^ 1024 \<le> p then Infinity else Finite p)"

definition get_error_rate :: "PerformanceStats \<Rightarrow> py_error + pynum" where
  "get_error_rate s =
     (if log_count s = 0 then Inr (PyInt 0)
      else (case int_true_div (error_count s) (log_count s) of
              Inl e \<Rightarrow> Inl e
            | Inr q \<Rightarrow> Inr (PyFloat (float_mul q 100))))"

section \<open>Evaluation rules and basic facts\<close>

lemmas char_defs =
  upper_def upper_char_def lower_def lower_char_def ascii_lowercase_def ascii_uppercase_def
  digits_def whitespace_def isspace_def isdigit_def isword_def

lemma dict_get_absent: "map_of e k = None \<Longrightarrow> dict_get e k d = d"
  by (simp add: dict_get_def)

lemma dict_get_absent_append:
  "map_of e k = None \<Longrightarrow>
   dict_get (e @ [(k, v)]) k' d = (if k' = k then v else dict_get e k' d)"
  by (simp add: dict_get_def map_add_def split: option.splits)

lemma deque_append_maxlen: "maxlen (deque_append d x) = maxlen d"
  by (simp add: deque_append_def Let_def)

lemma recent_logs_update: "recent_logs (update t e s) = deque_append (recent_logs s) e"
  by (simp add: update_def Let_def)

section \<open>PerformanceStats.update: the counters\<close>

text \<open>
  Claim C8.  For every entry, \<open>update\<close> adds exactly 1 to \<open>log_count\<close>; it adds 1 to
  \<open>error_count\<close> exactly when the uppercased level (\<open>INFO\<close> when the entry has none) is one
  of ERROR, CRITICAL, ALERT, EMERGENCY; it adds 1 to \<open>warning_count\<close> exactly when the
  uppercased level is WARNING; every other level leaves both buckets as they were.
\<close>

theorem update_counters:
  "log_count (update t e s) = log_count s + 1 \<and>
   error_count (update t e s) = error_count s +
     (if upper (dict_get e ''level'' ''INFO'') \<in> {''ERROR'', ''CRITICAL'', ''ALERT'', ''EMERGENCY''}
      then 1 else 0) \<and>
   warning_count (update t e s) = warning_count s +
     (if upper (dict_get e ''level'' ''INFO'') = ''WARNING'' then 1 else 0)"
  by (simp add: update_def Let_def)

section \<open>PerformanceStats.recent_logs: the bounded buffer\<close>

text \<open>
  One append to a window that holds the last \<open>m\<close> items of a history \<open>h\<close> gives the last
  \<open>m\<close> items of the history extended by the new item.
\<close>

lemma drop_window_step:
  "(if m < length (drop (length h - m) h @ [e]) then tl (drop (length h - m) h @ [e])
    else drop (length h - m) h @ [e]) = drop (length (h @ [e]) - m) (h @ [e])"
proof (cases "length h < m")
  case True
  then show ?thesis by simp
next
  case False
  show ?thesis
  proof (cases "m = 0")
    case True
    then show ?thesis by simp
  next
    case m: False
    with False have ne: "drop (length h - m) h \<noteq> []" by simp
    have "Suc (length h) - m = Suc (length h - m)" using False by simp
    with False m ne show ?thesis by (simp add: drop_Suc tl_drop)
  qed
qed

lemma updates_recent_logs:
  "maxlen (recent_logs s) = m \<Longrightarrow> items (recent_logs s) = drop (length h - m) h \<Longrightarrow>
   items (recent_logs (updates s evs)) = drop (length (h @ map snd evs) - m) (h @ map snd evs)"
proof (induction evs arbitrary: s h)
  case Nil
  then show ?case by simp
next
  case (Cons a evs)
  obtain t e where a: "a = (t, e)" by (cases a)
  let ?s = "update t e s"
  have m: "maxlen (recent_logs ?s) = m"
    using Cons.prems by (simp add: recent_logs_update deque_append_maxlen)
  have it: "items (recent_logs ?s) = drop (length (h @ [e]) - m) (h @ [e])"
    using Cons.prems drop_window_step[of m h e]
    by (simp add: recent_logs_update deque_append_def Let_def)
  from Cons.IH[OF m it] show ?case
    by (simp add: a)
qed

text \<open>
  Claim C9.  Starting from a fresh \<open>PerformanceStats\<close>, after any sequence of \<open>update\<close>
  calls the buffer of recent entries holds at most 1000 entries, namely the last 1000
  entries fed (all of them when fewer were fed), oldest first; after 1500 entries it holds
  entries 501 to 1500 in the order they were fed.
\<close>

theorem recent_logs_ring_buffer:
  "length (items (recent_logs (updates (PerformanceStats_init ws t0) evs))) \<le> 1000 \<and>
   items (recent_logs (updates (PerformanceStats_init ws t0) evs)) =
     drop (length evs - 1000) (map snd evs) \<and>
   (length evs = 1500 \<longrightarrow>
      items (recent_logs (updates (PerformanceStats_init ws t0) evs)) = drop 500 (map snd evs))"
  using updates_recent_logs[of "PerformanceStats_init ws t0" 1000 "[]" evs]
  by (simp add: PerformanceStats_init_def)

theorem recent_logs_ring_buffer_witness:
  "length (map (\<lambda>n. (0::rat, [(''message'', replicate n CHR ''x'')])) [0..<1500]) = 1500 \<and>
   items (recent_logs (updates (PerformanceStats_init 300 0)
       (map (\<lambda>n. (0, [(''message'', replicate n CHR ''x'')])) [0..<1500])))
     = map (\<lambda>n. [(''message'', replicate n CHR ''x'')]) [500..<1500]"
  using recent_logs_ring_buffer[of 300 0
      "map (\<lambda>n. (0, [(''message'', replicate n CHR ''x'')])) [0..<1500]"]
  by (simp add: drop_map comp_def)

section \<open>Entries with missing fields\<close>

text \<open>
  Claim C10.  \<open>update\<close> and \<open>matches_filter\<close> read an entry only through \<open>get\<close> with a
  default, so both are defined on entries that lack fields (neither has a failing path:
  the only exception raised inside them, the \<open>ValueError\<close> of \<open>list.index\<close>, is caught).
  An entry without \<open>level\<close> is tallied as INFO, touches neither bucket, and is filtered
  like the same entry with level INFO; an entry without \<open>service\<close> is tallied under
  \<open>unknown\<close> by \<open>update\<close> and filtered like the same entry with the empty service; an entry
  without \<open>message\<close> is filtered like the same entry with the empty message.
\<close>

theorem missing_fields_defaults:
  "(map_of e ''level'' = None \<longrightarrow>
      level_stats (update t e s) = defaultdict_incr (level_stats s) ''INFO'' \<and>
      error_count (update t e s) = error_count s \<and>
      warning_count (update t e s) = warning_count s \<and>
      matches_filter f e = matches_filter f (e @ [(''level'', ''INFO'')])) \<and>
   (map_of e ''service'' = None \<longrightarrow>
      service_stats (update t e s) = defaultdict_incr (service_stats s) ''unknown'' \<and>
      matches_filter f e = matches_filter f (e @ [(''service'', '''')])) \<and>
   (map_of e ''message'' = None \<longrightarrow>
      matches_filter f e = matches_filter f (e @ [(''message'', '''')]))"
proof -
  have up: "upper ''INFO'' = ''INFO''" by (simp add: char_defs)
  show ?thesis
    by (simp add: update_def matches_filter_def Let_def dict_get_absent_append
        dict_get_absent up)
qed

theorem missing_fields_defaults_witness:
  "map_of [(''timestamp'', ''Jan 15 10:23:45'')] ''level'' = None \<and>
   map_of [(''timestamp'', ''Jan 15 10:23:45'')] ''service'' = None \<and>
   map_of [(''timestamp'', ''Jan 15 10:23:45'')] ''message'' = None \<and>
   level_stats (update 0 [(''timestamp'', ''Jan 15 10:23:45'')] (PerformanceStats_init 300 0))
     = defaultdict_incr (level_stats (PerformanceStats_init 300 0)) ''INFO'' \<and>
   service_stats (update 0 [(''timestamp'', ''Jan 15 10:23:45'')] (PerformanceStats_init 300 0))
     = defaultdict_incr (service_stats (PerformanceStats_init 300 0)) ''unknown'' \<and>
   matches_filter (set_service LogFilter_init ''unknown'') [(''timestamp'', ''Jan 15 10:23:45'')]
     = matches_filter (set_service LogFilter_init ''unknown'')
         ([(''timestamp'', ''Jan 15 10:23:45'')] @ [(''service'', '''')]) \<and>
   \<not> matches_filter (set_service LogFilter_init ''unknown'') [(''timestamp'', ''Jan 15 10:23:45'')]"
proof -
  have h: "map_of [(''timestamp'', ''Jan 15 10:23:45'')] ''level'' = None"
    "map_of [(''timestamp'', ''Jan 15 10:23:45'')] ''service'' = None"
    "map_of [(''timestamp'', ''Jan 15 10:23:45'')] ''message'' = None"
    by simp_all
  have n: "\<not> matches_filter (set_service LogFilter_init ''unknown'')
      [(''timestamp'', ''Jan 15 10:23:45'')]"
    by (simp add: matches_filter_def set_service_def LogFilter_init_def dict_get_def char_defs
        filter_severity_levels_def str_truthy_def)
  from missing_fields_defaults[of "[(''timestamp'', ''Jan 15 10:23:45'')]" 0
      "PerformanceStats_init 300 0" "set_service LogFilter_init ''unknown''"] h n
  show ?thesis by blast
qed

section \<open>LogFilter: the severity stage\<close>

text \<open>
  Claim C1 asks that, with threshold WARNING, the filter accept ERROR, CRITICAL and
  WARNING and reject INFO, DEBUG and NOTICE.  The comparison in \<open>matches_filter\<close> rejects
  an entry whose position in the list running from DEBUG to EMERGENCY is greater than the
  threshold's: evaluated with threshold WARNING it rejects ERROR and CRITICAL and accepts
  WARNING, NOTICE, INFO and DEBUG.
\<close>

theorem matches_filter_threshold_WARNING:
  "\<not> matches_filter (set_severity LogFilter_init ''WARNING'')
       [(''timestamp'', ''Jan 15 10:23:45''), (''service'', ''sshd''), (''level'', ''ERROR''),
        (''message'', ''connection refused'')] \<and>
   \<not> matches_filter (set_severity LogFilter_init ''WARNING'')
       [(''timestamp'', ''Jan 15 10:23:45''), (''service'', ''sshd''), (''level'', ''CRITICAL''),
        (''message'', ''connection refused'')] \<and>
   matches_filter (set_severity LogFilter_init ''WARNING'')
       [(''timestamp'', ''Jan 15 10:23:45''), (''service'', ''sshd''), (''level'', ''WARNING''),
        (''message'', ''connection refused'')] \<and>
   matches_filter (set_severity LogFilter_init ''WARNING'')
       [(''timestamp'', ''Jan 15 10:23:45''), (''service'', ''sshd''), (''level'', ''NOTICE''),
        (''message'', ''connection refused'')] \<and>
   matches_filter (set_severity LogFilter_init ''WARNING'')
       [(''timestamp'', ''Jan 15 10:23:45''), (''service'', ''sshd''), (''level'', ''INFO''),
        (''message'', ''connection refused'')] \<and>
   matches_filter (set_severity LogFilter_init ''WARNING'')
       [(''timestamp'', ''Jan 15 10:23:45''), (''service'', ''sshd''), (''level'', ''DEBUG''),
        (''message'', ''connection refused'')]"
  by (simp add: matches_filter_def set_severity_def LogFilter_init_def dict_get_def char_defs
      filter_severity_levels_def str_truthy_def)

section \<open>LogFilter: excluded keywords\<close>

text \<open>
  Claim C5 asks that adding the same keyword twice leave the exclusions as after adding it
  once, whatever the keyword's letter case.  \<open>add_exclude_keyword\<close> tests the keyword as
  given against the stored, lowercased keywords: a keyword with a capital letter is never
  found and is stored again.
\<close>

theorem add_exclude_keyword_twice_mixed_case:
  "exclude_keywords (add_exclude_keyword LogFilter_init ''Timeout'') = [''timeout''] \<and>
   exclude_keywords
     (add_exclude_keyword (add_exclude_keyword LogFilter_init ''Timeout'') ''Timeout'')
     = [''timeout'', ''timeout'']"
  by (simp add: add_exclude_keyword_def LogFilter_init_def char_defs)

section \<open>Facts about the pattern search\<close>

lemmas re_defs = rx_one_def rx_opt_def rx_star_def rx_plus_def rx_lazy_star_def rx_times_def rx_between_def rx_lits_def

lemma first_some_Some: "first_some f xs = Some r \<Longrightarrow> \<exists>x\<in>set xs. f x = Some r"
  by (induction xs) (auto split: option.splits)

lemma set_counts: "n \<in> set (counts lo m g) \<longleftrightarrow> lo \<le> n \<and> n \<le> m"
  by (auto simp: counts_def)

lemma counts_greedy: "lo \<le> m \<Longrightarrow> counts lo m True = m # rev [lo..<m]"
  by (simp add: counts_def)

lemma run_length_le: "run_length c hi s \<le> length s"
  by (auto simp: run_length_def Let_def length_takeWhile_le min.coboundedI1 split: option.splits)

lemma run_length_pos: "0 < run_length c hi s \<Longrightarrow> s \<noteq> [] \<and> in_class c (hd s)"
  by (cases s) (auto simp: run_length_def Let_def split: option.splits if_splits)

lemma match_atoms_Some:
  "match_atoms as k s = Some r \<Longrightarrow>
   \<exists>n. min_len as \<le> n \<and> n \<le> length s \<and> k (drop n s) = Some r"
proof (induction as arbitrary: s)
  case Nil
  then show ?case by (auto simp: min_len_def intro: exI[of _ 0])
next
  case (Cons a as)
  obtain c lo hi g where a: "a = Rep c lo hi g" by (cases a)
  from Cons.prems obtain n1 where n1: "lo \<le> n1" "n1 \<le> run_length c hi s"
    and m: "match_atoms as k (drop n1 s) = Some r"
    by (auto simp: a set_counts dest!: first_some_Some)
  from Cons.IH[OF m] obtain n2 where n2: "min_len as \<le> n2" "n2 \<le> length (drop n1 s)"
    and k: "k (drop n2 (drop n1 s)) = Some r" by blast
  have "n1 \<le> length s" using n1 run_length_le[of c hi s] by simp
  with n1 n2 k show ?case
    by (intro exI[of _ "n2 + n1"]) (simp add: a min_len_def)
qed

lemma match_atoms_first:
  "match_atoms (Rep c lo hi g # as) k s = Some r \<Longrightarrow> 0 < lo \<Longrightarrow> s \<noteq> [] \<and> in_class c (hd s)"
  by (rule run_length_pos[of c hi]) (auto simp: set_counts dest!: first_some_Some)

lemma match_atoms_append:
  "match_atoms (as @ bs) k s = match_atoms as (match_atoms bs k) s"
  by (induction as arbitrary: s) (auto split: atom.splits)

lemma match_pieces_Some:
  "match_pieces ps s g = Some r \<Longrightarrow>
   \<exists>caps. r = g @ caps \<and> map fst caps = group_names ps \<and>
          list_all2 (\<lambda>m kv. m \<le> length (snd kv)) (group_mins ps) caps \<and>
          list_all (\<lambda>kv. sublist (snd kv) s) caps"
proof (induction ps arbitrary: s g)
  case Nil
  then show ?case by simp
next
  case (Cons p ps)
  show ?case
  proof (cases p)
    case (Plain as)
    with Cons.prems obtain n where n: "n \<le> length s"
      and m: "match_pieces ps (drop n s) g = Some r"
      by (auto dest!: match_atoms_Some)
    from Cons.IH[OF m] obtain caps where caps: "r = g @ caps" "map fst caps = group_names ps"
      "list_all2 (\<lambda>m kv. m \<le> length (snd kv)) (group_mins ps) caps"
      "list_all (\<lambda>kv. sublist (snd kv) (drop n s)) caps" by blast
    have "list_all (\<lambda>kv. sublist (snd kv) s) caps"
      using caps(4) by (auto simp: list_all_iff intro: sublist_order.order_trans[OF _ sublist_drop])
    with caps Plain show ?thesis by auto
  next
    case (Named name as)
    with Cons.prems obtain n where n: "min_len as \<le> n" "n \<le> length s"
      and m: "match_pieces ps (drop n s) (g @ [(name, take (length s - length (drop n s)) s)]) = Some r"
      by (auto dest!: match_atoms_Some)
    have t: "take (length s - length (drop n s)) s = take n s" using n by simp
    from Cons.IH[OF m] obtain caps where caps: "r = (g @ [(name, take n s)]) @ caps"
      "map fst caps = group_names ps"
      "list_all2 (\<lambda>m kv. m \<le> length (snd kv)) (group_mins ps) caps"
      "list_all (\<lambda>kv. sublist (snd kv) (drop n s)) caps" unfolding t by blast
    have "list_all (\<lambda>kv. sublist (snd kv) s) caps"
      using caps(4) by (auto simp: list_all_iff intro: sublist_order.order_trans[OF _ sublist_drop])
    with caps Named n show ?thesis
      by (intro exI[of _ "(name, take n s) # caps"]) (auto simp: sublist_take)
  qed
qed

subsection \<open>strip\<close>

lemma dropWhile_keeps_last:
  "xs \<noteq> [] \<Longrightarrow> \<not> P (last xs) \<Longrightarrow> dropWhile P xs \<noteq> [] \<and> last (dropWhile P xs) = last xs"
  by (induction xs) (auto split: if_splits)

lemma strip_clean: "starts_clean (strip s) \<and> ends_clean (strip s)"
proof (cases "dropWhile isspace s = []")
  case True
  then show ?thesis by (simp add: strip_def starts_clean_def ends_clean_def del: dropWhile_eq_Nil_conv)
next
  case False
  let ?t = "dropWhile isspace s"
  let ?u = "dropWhile isspace (rev ?t)"
  have h: "\<not> isspace (hd ?t)" using False by (rule hd_dropWhile)
  have r: "rev ?t \<noteq> []" "\<not> isspace (last (rev ?t))"
    using False h by (simp_all add: last_rev)
  from dropWhile_keeps_last[of "rev ?t" isspace] r have u: "?u \<noteq> []" "last ?u = hd ?t"
    using False by (simp_all add: last_rev)
  have "\<not> isspace (hd ?u)" using u(1) by (rule hd_dropWhile)
  with u h show ?thesis
    by (simp add: strip_def starts_clean_def ends_clean_def hd_rev last_rev)
qed

lemma strip_Nil_iff: "strip s = [] \<longleftrightarrow> (\<forall>c\<in>set s. isspace c)"
proof
  assume "strip s = []"
  then have "dropWhile isspace (rev (dropWhile isspace s)) = []" by (simp add: strip_def)
  then have "\<forall>c\<in>set (dropWhile isspace s). isspace c" by (simp add: dropWhile_eq_Nil_conv)
  then have "dropWhile isspace s = []"
    using hd_dropWhile[of isspace s] hd_in_set[of "dropWhile isspace s"] by blast
  then show "\<forall>c\<in>set s. isspace c" by (simp add: dropWhile_eq_Nil_conv)
next
  assume "\<forall>c\<in>set s. isspace c"
  then show "strip s = []" by (auto simp: strip_def dest: set_dropWhileD)
qed

lemma ends_clean_drop: "ends_clean s \<Longrightarrow> ends_clean (drop n s)"
  by (auto simp: ends_clean_def)

subsection \<open>The message group\<close>

lemma star_Dot_total:
  "match_atoms [rx_star Dot] (\<lambda>s''. Some (f s'')) s =
     Some (f (drop (length (takeWhile (in_class Dot) s)) s))"
  by (simp add: rx_star_def run_length_def counts_greedy)

lemma plus_total:
  assumes "1 \<le> run_length c None s" and "\<And>s'. \<exists>y. K s' = Some y"
  shows "match_atoms [rx_plus c] K s = K (drop (run_length c None s) s)"
proof -
  obtain y where y: "K (drop (run_length c None s) s) = Some y" using assms(2) by blast
  have "match_atoms [rx_plus c] K s
      = first_some (\<lambda>n. K (drop n s)) (counts 1 (run_length c None s) True)"
    by (simp add: rx_plus_def)
  also have "\<dots> = first_some (\<lambda>n. K (drop n s))
      (run_length c None s # rev [1..<run_length c None s])"
    by (simp only: counts_greedy[OF assms(1)])
  also have "\<dots> = K (drop (run_length c None s) s)"
    by (simp only: first_some.simps y option.case)
  finally show ?thesis .
qed

lemma message_tail:
  assumes "match_pieces [Plain [rx_plus Space], Named m [rx_star Dot]] s g = Some r" and "ends_clean s"
  shows "\<exists>txt. r = g @ [(m, txt)] \<and> txt \<noteq> []"
proof -
  let ?K = "\<lambda>s'. match_atoms [rx_star Dot]
      (\<lambda>s''. Some (g @ [(m, take (length s' - length s'') s')])) s'"
  let ?n = "run_length Space None s"
  have K: "?K s' = Some (g @ [(m, takeWhile (in_class Dot) s')])" for s'
  proof -
    have "?K s' = Some (g @ [(m, take (length s' -
        length (drop (length (takeWhile (in_class Dot) s')) s')) s')])"
      by (rule star_Dot_total[of "\<lambda>s''. g @ [(m, take (length s' - length s'') s')]" s'])
    also have "take (length s' - length (drop (length (takeWhile (in_class Dot) s')) s')) s'
        = takeWhile (in_class Dot) s'"
      using length_takeWhile_le[of "in_class Dot" s']
      by (simp add: takeWhile_eq_take[symmetric])
    finally show ?thesis .
  qed
  from assms(1) have m: "match_atoms [rx_plus Space] ?K s = Some r" by simp
  then have pos: "1 \<le> ?n"
    by (auto simp: rx_plus_def set_counts dest!: first_some_Some)
  have e: "match_atoms [rx_plus Space] ?K s = ?K (drop ?n s)"
  proof (rule plus_total[OF pos])
    show "\<exists>y. ?K s' = Some y" for s' using K[of s'] by (intro exI)
  qed
  have "Some r = match_atoms [rx_plus Space] ?K s" using m by (rule sym)
  also have "\<dots> = ?K (drop ?n s)" by (rule e)
  also have "\<dots> = Some (g @ [(m, takeWhile (in_class Dot) (drop ?n s))])" by (rule K)
  finally have r: "r = g @ [(m, takeWhile (in_class Dot) (drop ?n s))]"
    by (simp only: option.inject)
  have "in_class Space = isspace" by (rule ext) simp
  then have d: "drop ?n s = dropWhile isspace s"
    by (simp add: run_length_def dropWhile_eq_drop)
  from pos have ne: "s \<noteq> []" using run_length_pos[of Space None s] by simp
  with assms(2) have "\<not> isspace (last s)" by (simp add: ends_clean_def)
  with ne dropWhile_keeps_last[of s isspace] have dn: "dropWhile isspace s \<noteq> []" by blast
  then have "\<not> isspace (hd (dropWhile isspace s))" by (rule hd_dropWhile)
  then have "in_class Dot (hd (dropWhile isspace s))"
    by (auto simp: isspace_def whitespace_def)
  with dn have "takeWhile (in_class Dot) (dropWhile isspace s) \<noteq> []"
    by (cases "dropWhile isspace s") auto
  with r d show ?thesis by simp
qed

lemma match_pieces_append:
  "match_pieces (ps @ qs) s g = Some r \<Longrightarrow>
   \<exists>n g'. n \<le> length s \<and> match_pieces qs (drop n s) g' = Some r"
proof (induction ps arbitrary: s g)
  case Nil
  then show ?case by (intro exI[of _ 0] exI[of _ g]) simp
next
  case (Cons p ps)
  from Cons.prems obtain n1 g1 where n1: "n1 \<le> length s"
    and m: "match_pieces (ps @ qs) (drop n1 s) g1 = Some r"
    by (cases p) (auto dest!: match_atoms_Some)
  from Cons.IH[OF m] obtain n2 g' where "n2 \<le> length (drop n1 s)"
    "match_pieces qs (drop n2 (drop n1 s)) g' = Some r" by blast
  with n1 show ?case by (intro exI[of _ "n2 + n1"] exI[of _ g']) simp
qed

lemma message_nonempty:
  assumes "match_pieces (ps @ [Plain (as @ [rx_plus Space]), Named m [rx_star Dot]]) s g = Some r"
    and "ends_clean s"
  shows "\<exists>g' txt. r = g' @ [(m, txt)] \<and> txt \<noteq> []"
proof -
  from match_pieces_append[OF assms(1)] obtain n g' where
    "match_pieces [Plain (as @ [rx_plus Space]), Named m [rx_star Dot]] (drop n s) g' = Some r"
    by blast
  then have "match_atoms as
      (match_atoms [rx_plus Space] (\<lambda>s'. match_pieces [Named m [rx_star Dot]] s' g')) (drop n s) = Some r"
    by (simp add: match_atoms_append del: match_atoms.simps(2))
  from match_atoms_Some[OF this] obtain n' where
    "match_atoms [rx_plus Space] (\<lambda>s'. match_pieces [Named m [rx_star Dot]] s' g') (drop n' (drop n s))
       = Some r" by blast
  then have "match_pieces [Plain [rx_plus Space], Named m [rx_star Dot]] (drop n' (drop n s)) g' = Some r"
    by simp
  from message_tail[OF this] assms(2) show ?thesis
    by (auto simp: ends_clean_drop)
qed

subsection \<open>A lazy first group followed by white space\<close>

lemma lazy_first_nonempty:
  assumes "match_pieces (Named n0 [rx_lazy_star Dot] # Plain (rx_plus Space # as) # ps) s g = Some r"
    and "starts_clean s"
  shows "\<exists>txt caps. r = g @ (n0, txt) # caps \<and> txt \<noteq> []"
proof -
  from assms(1) have "match_atoms [rx_lazy_star Dot]
      (\<lambda>s'. match_pieces (Plain (rx_plus Space # as) # ps) s'
               (g @ [(n0, take (length s - length s') s)])) s = Some r"
    by simp
  from match_atoms_Some[OF this] obtain n where n: "n \<le> length s"
    and m: "match_pieces (Plain (rx_plus Space # as) # ps) (drop n s)
              (g @ [(n0, take (length s - length (drop n s)) s)]) = Some r" by blast
  have t: "take (length s - length (drop n s)) s = take n s" using n by simp
  from m have "match_atoms (Rep Space 1 None True # as)
      (\<lambda>s'. match_pieces ps s' (g @ [(n0, take n s)])) (drop n s) = Some r"
    using n by (simp add: rx_plus_def del: match_atoms.simps(2))
  from match_atoms_first[OF this] have sp: "drop n s \<noteq> []" "isspace (hd (drop n s))" by simp_all
  have "n \<noteq> 0"
  proof
    assume "n = 0"
    with sp assms(2) show False by (simp add: starts_clean_def)
  qed
  with sp(1) have ne: "take n s \<noteq> []" by (cases s) auto
  from match_pieces_Some[OF m] obtain caps where "r = (g @ [(n0, take n s)]) @ caps"
    unfolding t by blast
  with ne show ?thesis by auto
qed

subsection \<open>The four patterns\<close>

lemma group_names_patterns:
  "group_names syslog_re = [''timestamp'', ''service'', ''level'', ''message'']"
  "group_names apache_re = [''timestamp'', ''level'', ''message'']"
  "group_names nginx_re = [''timestamp'', ''level'', ''message'']"
  "group_names custom_re = [''timestamp'', ''level'', ''service'', ''message'']"
  by (simp_all add: syslog_re_def apache_re_def nginx_re_def custom_re_def)

lemma group_mins_syslog: "group_mins syslog_re = [14, 1, 1, 0]"
  by (simp add: syslog_re_def re_defs min_len_def)

lemma group_mins_nginx: "group_mins nginx_re = [19, 0, 0]"
  by (simp add: nginx_re_def re_defs min_len_def)

lemma group_mins_custom: "group_mins custom_re = [0, 1, 1, 0]"
  by (simp add: custom_re_def re_defs min_len_def)

lemma re_match_Nil:
  "re_match syslog_re [] = None" "re_match apache_re [] = None"
  "re_match nginx_re [] = None" "re_match custom_re [] = None"
  by code_simp+

lemma map_of_patterns:
  "map_of patterns t = Some p \<longleftrightarrow>
     t = ''syslog'' \<and> p = syslog_re \<or> t = ''apache'' \<and> p = apache_re \<or>
     t = ''nginx'' \<and> p = nginx_re \<or> t = ''custom'' \<and> p = custom_re"
  by (auto simp: patterns_def)

lemma message_last:
  assumes "re_match p s = Some r" and "ends_clean s"
    and "p = syslog_re \<or> p = apache_re \<or> p = nginx_re \<or> p = custom_re"
  shows "\<exists>g' mtext. r = g' @ [(''message'', mtext)] \<and> mtext \<noteq> []"
proof -
  have 1: "syslog_re = butlast (butlast syslog_re) @
      [Plain ([rx_opt (Lit CHR '':'')] @ [rx_plus Space]), Named ''message'' [rx_star Dot]]"
    by (simp add: syslog_re_def)
  have 2: "apache_re = butlast (butlast apache_re) @
      [Plain (([rx_one (Lit CHR '']''), rx_plus Space, rx_one (Lit CHR ''['')] @
           rx_lits ''pid '' @
           [rx_plus Digit, rx_one (Lit CHR '']''), rx_plus Space, rx_one (Lit CHR ''['')] @
           rx_lits ''client '' @ [rx_lazy_star Dot, rx_one (Lit CHR '']'')]) @ [rx_plus Space]),
       Named ''message'' [rx_star Dot]]"
    by (simp add: apache_re_def)
  have 3: "nginx_re = butlast (butlast nginx_re) @
      [Plain ([rx_one (Lit CHR '']''), rx_plus Space, rx_plus Digit, rx_one (Lit CHR ''#''),
           rx_plus Digit, rx_one (Lit CHR '':''), rx_plus Space, rx_one (Lit CHR ''*''),
           rx_plus Digit] @ [rx_plus Space]),
       Named ''message'' [rx_star Dot]]"
    by (simp add: nginx_re_def)
  have 4: "custom_re = butlast (butlast custom_re) @
      [Plain ([rx_plus Space, rx_one (Lit CHR ''-'')] @ [rx_plus Space]),
       Named ''message'' [rx_star Dot]]"
    by (simp add: custom_re_def)
  from assms(3) obtain ps as where
    p: "p = ps @ [Plain (as @ [rx_plus Space]), Named ''message'' [rx_star Dot]]"
    using 1 2 3 4 by metis
  from assms(1) have "match_pieces p s [] = Some r" by (simp add: re_match_def)
  then have "match_pieces (ps @ [Plain (as @ [rx_plus Space]), Named ''message'' [rx_star Dot]])
      s [] = Some r" by (simp only: p)
  from message_nonempty[OF this assms(2)] show ?thesis .
qed

lemma last_field:
  "xs @ [(k, v)] = g' @ [(k', v')] \<Longrightarrow> v = v'"
  by simp

lemma syslog_fields:
  assumes "re_match syslog_re s = Some r" and "ends_clean s"
  shows "\<exists>ts sv lv msg. r = [(''timestamp'', ts), (''service'', sv), (''level'', lv),
            (''message'', msg)] \<and> ts \<noteq> [] \<and> sv \<noteq> [] \<and> lv \<noteq> [] \<and> msg \<noteq> []"
proof -
  from assms(1) have "match_pieces syslog_re s [] = Some r" by (simp add: re_match_def)
  from match_pieces_Some[OF this]
  have c: "map fst r = group_names syslog_re"
    "list_all2 (\<lambda>m kv. m \<le> length (snd kv)) (group_mins syslog_re) r"
    by auto
  from message_last[OF assms] obtain g' mtext where
    m: "r = g' @ [(''message'', mtext)]" "mtext \<noteq> []" by auto
  from c(1) obtain ts sv lv msg where
    r: "r = [(''timestamp'', ts), (''service'', sv), (''level'', lv), (''message'', msg)]"
    by (auto simp: group_names_patterns map_eq_Cons_conv)
  from c(2) have "14 \<le> length ts" "1 \<le> length sv" "1 \<le> length lv"
    unfolding r group_mins_syslog by simp_all
  moreover have "msg = mtext"
    using m(1) last_field[of "[(''timestamp'', ts), (''service'', sv), (''level'', lv)]"
        "''message''" msg g' "''message''" mtext] unfolding r by simp
  ultimately show ?thesis using r m(2) by auto
qed

lemma custom_fields:
  assumes "re_match custom_re s = Some r" and "ends_clean s" and "starts_clean s"
  shows "\<exists>ts lv sv msg. r = [(''timestamp'', ts), (''level'', lv), (''service'', sv),
            (''message'', msg)] \<and> ts \<noteq> [] \<and> lv \<noteq> [] \<and> sv \<noteq> [] \<and> msg \<noteq> []"
proof -
  from assms(1) have mp: "match_pieces custom_re s [] = Some r" by (simp add: re_match_def)
  from match_pieces_Some[OF this]
  have c: "map fst r = group_names custom_re"
    "list_all2 (\<lambda>m kv. m \<le> length (snd kv)) (group_mins custom_re) r"
    by auto
  from message_last[OF assms(1,2)] obtain g' mtext where
    m: "r = g' @ [(''message'', mtext)]" "mtext \<noteq> []" by auto
  from c(1) obtain ts lv sv msg where
    r: "r = [(''timestamp'', ts), (''level'', lv), (''service'', sv), (''message'', msg)]"
    by (auto simp: group_names_patterns map_eq_Cons_conv)
  from c(2) have "1 \<le> length lv" "1 \<le> length sv"
    unfolding r group_mins_custom by simp_all
  moreover have "msg = mtext"
    using m(1) last_field[of "[(''timestamp'', ts), (''level'', lv), (''service'', sv)]"
        "''message''" msg g' "''message''" mtext] unfolding r by simp
  moreover have "ts \<noteq> []"
  proof -
    have "match_pieces (Named ''timestamp'' [rx_lazy_star Dot] #
        Plain (rx_plus Space # [rx_one (Lit CHR ''-''), rx_plus Space]) # drop 2 custom_re)
          s [] = Some r"
      using mp by (simp add: custom_re_def)
    from lazy_first_nonempty[OF this assms(3)] show ?thesis unfolding r by auto
  qed
  ultimately show ?thesis using r m(2) by auto
qed

lemma nginx_fields:
  assumes "re_match nginx_re s = Some r" and "ends_clean s"
  shows "\<exists>ts lv msg. r = [(''timestamp'', ts), (''level'', lv), (''message'', msg)] \<and>
            ts \<noteq> [] \<and> msg \<noteq> []"
proof -
  from assms(1) have "match_pieces nginx_re s [] = Some r" by (simp add: re_match_def)
  from match_pieces_Some[OF this]
  have c: "map fst r = group_names nginx_re"
    "list_all2 (\<lambda>m kv. m \<le> length (snd kv)) (group_mins nginx_re) r"
    by auto
  from message_last[OF assms] obtain g' mtext where
    m: "r = g' @ [(''message'', mtext)]" "mtext \<noteq> []" by auto
  from c(1) obtain ts lv msg where
    r: "r = [(''timestamp'', ts), (''level'', lv), (''message'', msg)]"
    by (auto simp: group_names_patterns map_eq_Cons_conv)
  from c(2) have "19 \<le> length ts"
    unfolding r group_mins_nginx by simp_all
  moreover have "msg = mtext"
    using m(1) last_field[of "[(''timestamp'', ts), (''level'', lv)]"
        "''message''" msg g' "''message''" mtext] unfolding r by simp
  ultimately show ?thesis using r m(2) by auto
qed

lemma apache_fields:
  assumes "re_match apache_re s = Some r" and "ends_clean s"
  shows "\<exists>ts lv msg. r = [(''timestamp'', ts), (''level'', lv), (''message'', msg)] \<and> msg \<noteq> []"
proof -
  from assms(1) have "match_pieces apache_re s [] = Some r" by (simp add: re_match_def)
  from match_pieces_Some[OF this]
  have c: "map fst r = group_names apache_re" by auto
  from message_last[OF assms] obtain g' mtext where
    m: "r = g' @ [(''message'', mtext)]" "mtext \<noteq> []" by auto
  from c(1) obtain ts lv msg where
    r: "r = [(''timestamp'', ts), (''level'', lv), (''message'', msg)]"
    by (auto simp: group_names_patterns map_eq_Cons_conv)
  have "msg = mtext"
    using m(1) last_field[of "[(''timestamp'', ts), (''level'', lv)]"
        "''message''" msg g' "''message''" mtext] unfolding r by simp
  then show ?thesis using r m(2) by auto
qed

subsection \<open>The fallback\<close>

lemma parse_line_alt:
  "parse_line now line log_type =
     (case grammar_match log_type line of
        Some groupdict \<Rightarrow> Some groupdict
      | None \<Rightarrow>
          (case find (\<lambda>level. sublist level (upper line)) (map fst severity_levels) of
             Some level \<Rightarrow>
               Some [(''timestamp'', strftime now), (''level'', level),
                     (''service'', ''unknown''), (''message'', strip line)]
           | None \<Rightarrow> None))"
  by (simp add: parse_line_def grammar_match_def)

lemma grammar_match_Some:
  "grammar_match log_type line = Some g \<longleftrightarrow>
     (\<exists>p. map_of patterns log_type = Some p \<and> re_match p (strip line) = Some g)"
  by (simp add: grammar_match_def split: option.splits)

lemma upper_char_space: "isspace c \<Longrightarrow> upper_char c = c"
proof -
  assume "isspace c"
  then have "c \<notin> set ascii_lowercase"
    by (auto simp: isspace_def whitespace_def ascii_lowercase_def)
  then have "map_of (zip ascii_lowercase ascii_uppercase) c = None"
    by (simp add: map_of_eq_None_iff ascii_lowercase_def ascii_uppercase_def)
  then show ?thesis by (simp add: upper_char_def)
qed

lemma level_starts_with_letter:
  "level \<in> set (map fst severity_levels) \<Longrightarrow> level \<noteq> [] \<and> \<not> isspace (hd level)"
  by (auto simp: severity_levels_def isspace_def whitespace_def)

lemma keyword_needs_text:
  assumes "sublist level (upper line)" and "level \<in> set (map fst severity_levels)"
  shows "strip line \<noteq> []"
proof
  assume "strip line = []"
  then have sp: "\<forall>c\<in>set line. isspace c" by (simp add: strip_Nil_iff)
  from level_starts_with_letter[OF assms(2)] have l: "level \<noteq> []" "\<not> isspace (hd level)"
    by simp_all
  from assms(1) have "set level \<subseteq> set (upper line)" by (rule set_mono_sublist)
  with l(1) have "hd level \<in> set (upper line)" by auto
  then obtain c where "c \<in> set line" "hd level = upper_char c" by (auto simp: upper_def)
  with sp l(2) show False by (auto simp: upper_char_space)
qed

lemma grammar_match_blank: "strip line = [] \<Longrightarrow> grammar_match log_type line = None"
  by (auto simp: grammar_match_def re_match_Nil map_of_patterns split: option.splits)

lemma strftime_nonempty: "strftime now \<noteq> []"
  by (simp add: strftime_def pad4_def)

lemma grammar_match_fields:
  assumes "grammar_match log_type line = Some r"
  shows "(log_type = ''syslog'' \<and>
            (\<exists>ts sv lv msg. r = [(''timestamp'', ts), (''service'', sv), (''level'', lv),
               (''message'', msg)] \<and> ts \<noteq> [] \<and> sv \<noteq> [] \<and> lv \<noteq> [] \<and> msg \<noteq> [])) \<or>
         (log_type = ''custom'' \<and>
            (\<exists>ts lv sv msg. r = [(''timestamp'', ts), (''level'', lv), (''service'', sv),
               (''message'', msg)] \<and> ts \<noteq> [] \<and> lv \<noteq> [] \<and> sv \<noteq> [] \<and> msg \<noteq> [])) \<or>
         (log_type = ''nginx'' \<and>
            (\<exists>ts lv msg. r = [(''timestamp'', ts), (''level'', lv), (''message'', msg)] \<and>
               ts \<noteq> [] \<and> msg \<noteq> [])) \<or>
         (log_type = ''apache'' \<and>
            (\<exists>ts lv msg. r = [(''timestamp'', ts), (''level'', lv), (''message'', msg)] \<and>
               msg \<noteq> []))"
proof -
  from assms obtain p where p: "map_of patterns log_type = Some p"
    "re_match p (strip line) = Some r" by (auto simp: grammar_match_Some)
  have cl: "ends_clean (strip line)" "starts_clean (strip line)"
    using strip_clean[of line] by simp_all
  from p(1) consider
    "log_type = ''syslog''" "p = syslog_re" | "log_type = ''apache''" "p = apache_re" |
    "log_type = ''nginx''" "p = nginx_re" | "log_type = ''custom''" "p = custom_re"
    unfolding map_of_patterns by blast
  then show ?thesis
  proof cases
    case 1
    with syslog_fields[of "strip line" r] p(2) cl show ?thesis by simp
  next
    case 2
    with apache_fields[of "strip line" r] p(2) cl show ?thesis by simp
  next
    case 3
    with nginx_fields[of "strip line" r] p(2) cl show ?thesis by simp
  next
    case 4
    with custom_fields[of "strip line" r] p(2) cl show ?thesis by simp
  qed
qed

lemma parse_line_unparseable_blank:
  "strip line = [] \<Longrightarrow> parse_line now line log_type = None"
proof -
  assume b: "strip line = []"
  have "\<not> sublist level (upper line)" if "level \<in> set (map fst severity_levels)" for level
    using b that keyword_needs_text[of level line] by blast
  then have "find (\<lambda>level. sublist level (upper line)) (map fst severity_levels) = None"
    unfolding find_None_iff by blast
  with grammar_match_blank[OF b] show ?thesis by (simp add: parse_line_alt)
qed

section \<open>LogParser.parse_line: a line that matches its format\<close>

text \<open>
  Claim C3, as amended.  When the trimmed line matches the pattern of the configured
  format, \<open>parse_line\<close> returns the pattern's named groups and nothing else: the keys are
  the group names in the pattern's order and every value is a contiguous part of the
  trimmed line.  No default is added: for the apache and nginx patterns, which have no
  \<open>service\<close> group, the entry has no \<open>service\<close> key.  The syslog line of the specification
  yields the four fields stated there.
\<close>

theorem parse_line_groupdict:
  assumes "map_of patterns log_type = Some p" and "re_match p (strip line) = Some g"
  shows "parse_line now line log_type = Some g \<and>
         map fst g = group_names p \<and>
         list_all (\<lambda>kv. sublist (snd kv) (strip line)) g \<and>
         (log_type = ''syslog'' \<longrightarrow>
            map fst g = [''timestamp'', ''service'', ''level'', ''message'']) \<and>
         (log_type = ''custom'' \<longrightarrow>
            map fst g = [''timestamp'', ''level'', ''service'', ''message'']) \<and>
         (log_type = ''apache'' \<or> log_type = ''nginx'' \<longrightarrow>
            map fst g = [''timestamp'', ''level'', ''message''] \<and> map_of g ''service'' = None)"
proof -
  from assms have gm: "grammar_match log_type line = Some g"
    by (simp add: grammar_match_Some)
  then have 1: "parse_line now line log_type = Some g" by (simp add: parse_line_alt)
  from assms(2) have "match_pieces p (strip line) [] = Some g" by (simp add: re_match_def)
  from match_pieces_Some[OF this]
  have 2: "map fst g = group_names p" "list_all (\<lambda>kv. sublist (snd kv) (strip line)) g"
    by auto
  from assms(1) have p: "log_type = ''syslog'' \<and> p = syslog_re \<or>
      log_type = ''apache'' \<and> p = apache_re \<or> log_type = ''nginx'' \<and> p = nginx_re \<or>
      log_type = ''custom'' \<and> p = custom_re"
    by (simp only: map_of_patterns)
  have 3: "map_of g ''service'' = None" if "map fst g = [''timestamp'', ''level'', ''message'']"
  proof -
    have "''service'' \<notin> fst ` set g" using that by (simp flip: set_map)
    then show ?thesis by (simp add: map_of_eq_None_iff)
  qed
  from p 2(1) have 4: "log_type = ''syslog'' \<longrightarrow>
      map fst g = [''timestamp'', ''service'', ''level'', ''message'']"
    by (auto simp: group_names_patterns)
  from p 2(1) have 5: "log_type = ''custom'' \<longrightarrow>
      map fst g = [''timestamp'', ''level'', ''service'', ''message'']"
    by (auto simp: group_names_patterns)
  from p 2(1) have 6: "log_type = ''apache'' \<or> log_type = ''nginx'' \<longrightarrow>
      map fst g = [''timestamp'', ''level'', ''message'']"
    by (auto simp: group_names_patterns)
  have 7: "log_type = ''apache'' \<or> log_type = ''nginx'' \<longrightarrow>
      map fst g = [''timestamp'', ''level'', ''message''] \<and> map_of g ''service'' = None"
  proof
    assume "log_type = ''apache'' \<or> log_type = ''nginx''"
    with 6 have m: "map fst g = [''timestamp'', ''level'', ''message'']" by (rule mp)
    from m 3[OF m]
    show "map fst g = [''timestamp'', ''level'', ''message''] \<and> map_of g ''service'' = None"
      by (rule conjI)
  qed
  from 1 2 4 5 7 show ?thesis by (intro conjI) assumption+
qed

theorem parse_line_groupdict_witness:
  "map_of patterns ''syslog'' = Some syslog_re \<and>
   re_match syslog_re
     (strip ''Jan 15 10:23:45 myhost sshd[1234]: ERROR: connection refused'') =
     Some [(''timestamp'', ''Jan 15 10:23:45''), (''service'', ''sshd''), (''level'', ''ERROR''),
           (''message'', ''connection refused'')] \<and>
   parse_line \<lparr>year = 2024, month = 1, day = 15, hour = 10, minute = 23, second = 45\<rparr>
     ''Jan 15 10:23:45 myhost sshd[1234]: ERROR: connection refused'' ''syslog'' =
     Some [(''timestamp'', ''Jan 15 10:23:45''), (''service'', ''sshd''), (''level'', ''ERROR''),
           (''message'', ''connection refused'')]"
proof -
  have h1: "map_of patterns ''syslog'' = Some syslog_re" by (simp add: patterns_def)
  have h2: "re_match syslog_re
     (strip ''Jan 15 10:23:45 myhost sshd[1234]: ERROR: connection refused'') =
     Some [(''timestamp'', ''Jan 15 10:23:45''), (''service'', ''sshd''), (''level'', ''ERROR''),
           (''message'', ''connection refused'')]"
    by code_simp
  from parse_line_groupdict[OF h1 h2] h1 h2 show ?thesis by blast
qed

theorem parse_line_apache_has_no_service:
  "parse_line \<lparr>year = 2024, month = 1, day = 15, hour = 10, minute = 23, second = 45\<rparr>
     ''[Mon Jan 15 10:23:45 2024] [error] [pid 1234] [client 10.0.0.1] File does not exist''
     ''apache'' =
     Some [(''timestamp'', ''Mon Jan 15 10:23:45 2024''), (''level'', ''error''),
           (''message'', ''File does not exist'')] \<and>
   map_of [(''timestamp'', ''Mon Jan 15 10:23:45 2024''), (''level'', ''error''),
           (''message'', ''File does not exist'')] ''service'' \<noteq> Some ''unknown''"
proof -
  have "grammar_match ''apache''
      ''[Mon Jan 15 10:23:45 2024] [error] [pid 1234] [client 10.0.0.1] File does not exist''
    = Some [(''timestamp'', ''Mon Jan 15 10:23:45 2024''), (''level'', ''error''),
           (''message'', ''File does not exist'')]"
    by code_simp
  then show ?thesis by (simp add: parse_line_alt)
qed

section \<open>LogParser.parse_line: the fallback on severity keywords\<close>

text \<open>
  Claim C4.  When the line does not match the pattern of the configured format (or the
  format has none) and the uppercased line contains a severity name, \<open>parse_line\<close>
  returns the entry whose level is the first name of the table, in the order EMERGENCY,
  ALERT, CRITICAL, ERROR, WARNING, NOTICE, INFO, DEBUG, that occurs in the uppercased
  line, whose service is \<open>unknown\<close>, whose message is the trimmed line, and whose
  timestamp is the clock reading formatted year-month-day hour:minute:second.
\<close>

theorem parse_line_fallback:
  assumes "grammar_match log_type line = None"
    and "\<exists>level\<in>set (map fst severity_levels). sublist level (upper line)"
  shows "map fst severity_levels =
           [''EMERGENCY'', ''ALERT'', ''CRITICAL'', ''ERROR'', ''WARNING'', ''NOTICE'', ''INFO'',
            ''DEBUG''] \<and>
         (\<exists>i<length severity_levels.
            sublist (fst (severity_levels ! i)) (upper line) \<and>
            (\<forall>j<i. \<not> sublist (fst (severity_levels ! j)) (upper line)) \<and>
            parse_line now line log_type =
              Some [(''timestamp'', strftime now), (''level'', fst (severity_levels ! i)),
                    (''service'', ''unknown''), (''message'', strip line)])"
proof
  show "map fst severity_levels =
      [''EMERGENCY'', ''ALERT'', ''CRITICAL'', ''ERROR'', ''WARNING'', ''NOTICE'', ''INFO'',
       ''DEBUG'']"
    by (simp add: severity_levels_def)
next
  let ?P = "\<lambda>level. sublist level (upper line)"
  from assms(2) obtain level where
    f: "find ?P (map fst severity_levels) = Some level"
    by (cases "find ?P (map fst severity_levels)") (auto simp: find_None_iff)
  then obtain i where i: "i < length (map fst severity_levels)"
    "?P (map fst severity_levels ! i)" "level = map fst severity_levels ! i"
    "\<forall>j<i. \<not> ?P (map fst severity_levels ! j)"
    unfolding find_Some_iff by blast
  have p: "parse_line now line log_type =
      Some [(''timestamp'', strftime now), (''level'', level),
            (''service'', ''unknown''), (''message'', strip line)]"
    using assms(1) f by (simp add: parse_line_alt)
  from i have "i < length severity_levels" by simp
  moreover from i have "sublist (fst (severity_levels ! i)) (upper line)" by simp
  moreover from i have "\<forall>j<i. \<not> sublist (fst (severity_levels ! j)) (upper line)" by simp
  moreover from i p have "parse_line now line log_type =
      Some [(''timestamp'', strftime now), (''level'', fst (severity_levels ! i)),
            (''service'', ''unknown''), (''message'', strip line)]" by simp
  ultimately show "\<exists>i<length severity_levels.
      sublist (fst (severity_levels ! i)) (upper line) \<and>
      (\<forall>j<i. \<not> sublist (fst (severity_levels ! j)) (upper line)) \<and>
      parse_line now line log_type =
        Some [(''timestamp'', strftime now), (''level'', fst (severity_levels ! i)),
              (''service'', ''unknown''), (''message'', strip line)]" by blast
qed

theorem parse_line_fallback_witness:
  "grammar_match ''syslog'' ''Something went WRONG: ERROR occurred'' = None \<and>
   (\<exists>level\<in>set (map fst severity_levels).
      sublist level (upper ''Something went WRONG: ERROR occurred'')) \<and>
   (\<exists>i<length severity_levels.
      parse_line \<lparr>year = 2024, month = 1, day = 15, hour = 10, minute = 23, second = 45\<rparr>
        ''Something went WRONG: ERROR occurred'' ''syslog'' =
        Some [(''timestamp'', strftime
                \<lparr>year = 2024, month = 1, day = 15, hour = 10, minute = 23, second = 45\<rparr>),
              (''level'', fst (severity_levels ! i)),
              (''service'', ''unknown''),
              (''message'', strip ''Something went WRONG: ERROR occurred'')]) \<and>
   parse_line \<lparr>year = 2024, month = 1, day = 15, hour = 10, minute = 23, second = 45\<rparr>
     ''Something went WRONG: ERROR occurred'' ''syslog'' =
     Some [(''timestamp'', ''2024-01-15 10:23:45''), (''level'', ''ERROR''),
           (''service'', ''unknown''), (''message'', ''Something went WRONG: ERROR occurred'')]"
proof -
  have h1: "grammar_match ''syslog'' ''Something went WRONG: ERROR occurred'' = None"
    by code_simp
  have s: "sublist ''ERROR'' (upper ''Something went WRONG: ERROR occurred'')"
    by code_simp
  have h2: "\<exists>level\<in>set (map fst severity_levels).
      sublist level (upper ''Something went WRONG: ERROR occurred'')"
    using s by (intro bexI[of _ "''ERROR''"]) (simp_all add: severity_levels_def)
  have e: "parse_line \<lparr>year = 2024, month = 1, day = 15, hour = 10, minute = 23, second = 45\<rparr>
     ''Something went WRONG: ERROR occurred'' ''syslog'' =
     Some [(''timestamp'', ''2024-01-15 10:23:45''), (''level'', ''ERROR''),
           (''service'', ''unknown''), (''message'', ''Something went WRONG: ERROR occurred'')]"
    by code_simp
  from parse_line_fallback[OF h1 h2,
      of "\<lparr>year = 2024, month = 1, day = 15, hour = 10, minute = 23, second = 45\<rparr>"]
  have "\<exists>i<length severity_levels.
      parse_line \<lparr>year = 2024, month = 1, day = 15, hour = 10, minute = 23, second = 45\<rparr>
        ''Something went WRONG: ERROR occurred'' ''syslog'' =
        Some [(''timestamp'', strftime
                \<lparr>year = 2024, month = 1, day = 15, hour = 10, minute = 23, second = 45\<rparr>),
              (''level'', fst (severity_levels ! i)),
              (''service'', ''unknown''),
              (''message'', strip ''Something went WRONG: ERROR occurred'')]"
    by blast
  with h1 h2 e show ?thesis by (intro conjI) assumption+
qed

section \<open>LogParser.parse_line and the ingestion loop: lines that are dropped\<close>

text \<open>
  Claim C6.  When the line does not match the pattern of the configured format and its
  uppercased text contains no severity name, and in particular whenever the line is
  empty after trimming, \<open>parse_line\<close> returns \<open>None\<close>; the loop body of \<open>tail_log\<close> then
  does not call \<open>update\<close>: the statistics, and so \<open>log_count\<close>, are unchanged.
\<close>

theorem parse_line_unparseable:
  assumes "(grammar_match log_type line = None \<and>
            list_all (\<lambda>level. \<not> sublist level (upper line)) (map fst severity_levels)) \<or>
           strip line = []"
  shows "parse_line now line log_type = None \<and>
         tail_log_line now current_time log_type line stats = stats \<and>
         log_count (tail_log_line now current_time log_type line stats) = log_count stats"
proof -
  have g: "grammar_match log_type line = None"
    using assms grammar_match_blank by blast
  have "\<not> sublist level (upper line)" if "level \<in> set (map fst severity_levels)" for level
    using assms that keyword_needs_text[of level line] by (auto simp: list_all_iff)
  then have "find (\<lambda>level. sublist level (upper line)) (map fst severity_levels) = None"
    unfolding find_None_iff by blast
  with g have "parse_line now line log_type = None" by (simp add: parse_line_alt)
  then show ?thesis by (simp add: tail_log_line_def)
qed

theorem parse_line_unparseable_witness:
  "grammar_match ''syslog'' (''hello world'' @ [CHR 0x0A]) = None \<and>
   list_all (\<lambda>level. \<not> sublist level (upper (''hello world'' @ [CHR 0x0A])))
     (map fst severity_levels) \<and>
   strip [CHR 0x20, CHR 0x09, CHR 0x0A] = [] \<and>
   parse_line \<lparr>year = 2024, month = 1, day = 15, hour = 10, minute = 23, second = 45\<rparr>
     (''hello world'' @ [CHR 0x0A]) ''syslog'' = None \<and>
   parse_line \<lparr>year = 2024, month = 1, day = 15, hour = 10, minute = 23, second = 45\<rparr>
     [CHR 0x20, CHR 0x09, CHR 0x0A] ''custom'' = None \<and>
   log_count (tail_log_line
       \<lparr>year = 2024, month = 1, day = 15, hour = 10, minute = 23, second = 45\<rparr> 0 ''syslog''
       (''hello world'' @ [CHR 0x0A]) (PerformanceStats_init 300 0)) = 0"
proof -
  have h1: "grammar_match ''syslog'' (''hello world'' @ [CHR 0x0A]) = None"
    by code_simp
  have h2: "list_all (\<lambda>level. \<not> sublist level (upper (''hello world'' @ [CHR 0x0A])))
     (map fst severity_levels)"
    by code_simp
  have h3: "strip [CHR 0x20, CHR 0x09, CHR 0x0A] = []"
    by (simp add: strip_def isspace_def whitespace_def)
  have z: "log_count (PerformanceStats_init 300 0) = 0"
    by (simp add: PerformanceStats_init_def)
  from parse_line_unparseable[of "''syslog''" "''hello world'' @ [CHR 0x0A]"
      "\<lparr>year = 2024, month = 1, day = 15, hour = 10, minute = 23, second = 45\<rparr>" 0
      "PerformanceStats_init 300 0"] h1 h2
  have a: "parse_line \<lparr>year = 2024, month = 1, day = 15, hour = 10, minute = 23, second = 45\<rparr>
     (''hello world'' @ [CHR 0x0A]) ''syslog'' = None"
    "log_count (tail_log_line
       \<lparr>year = 2024, month = 1, day = 15, hour = 10, minute = 23, second = 45\<rparr> 0 ''syslog''
       (''hello world'' @ [CHR 0x0A]) (PerformanceStats_init 300 0)) = 0"
    unfolding z by blast+
  from parse_line_unparseable[of "''custom''" "[CHR 0x20, CHR 0x09, CHR 0x0A]"
      "\<lparr>year = 2024, month = 1, day = 15, hour = 10, minute = 23, second = 45\<rparr>"] h3
  have b: "parse_line \<lparr>year = 2024, month = 1, day = 15, hour = 10, minute = 23, second = 45\<rparr>
     [CHR 0x20, CHR 0x09, CHR 0x0A] ''custom'' = None"
    by blast
  from h1 h2 h3 a b show ?thesis by (intro conjI) assumption+
qed

section \<open>The fields of the entries that reach PerformanceStats.update\<close>

text \<open>
  Claim C2, as amended.  The loop body of \<open>tail_log\<close> passes to \<open>update\<close> exactly the
  entry that \<open>parse_line\<close> returned.  Every such entry has the keys \<open>timestamp\<close>, \<open>level\<close>
  and \<open>message\<close>, and its message is not empty.  An entry of the keyword fallback, or of
  a match of the syslog or custom pattern, has all four keys, each with a non-empty
  value.  An entry of a match of the apache or nginx pattern has no \<open>service\<close> key (the
  default \<open>unknown\<close> is supplied by \<open>update\<close> itself when it reads the entry); the
  timestamp of an nginx entry is not empty.
\<close>

theorem parse_line_fields:
  assumes "parse_line now line log_type = Some r"
  shows "tail_log_line now current_time log_type line stats = update current_time r stats \<and>
         (\<exists>ts lv msg.
            map_of r ''timestamp'' = Some ts \<and> map_of r ''level'' = Some lv \<and>
            map_of r ''message'' = Some msg \<and> msg \<noteq> [] \<and>
            (grammar_match log_type line \<noteq> None \<and> log_type = ''apache'' \<longrightarrow>
               map_of r ''service'' = None) \<and>
            (grammar_match log_type line \<noteq> None \<and> log_type = ''nginx'' \<longrightarrow>
               map_of r ''service'' = None \<and> ts \<noteq> []) \<and>
            (grammar_match log_type line = None \<or> log_type = ''syslog'' \<or>
             log_type = ''custom'' \<longrightarrow>
               ts \<noteq> [] \<and> lv \<noteq> [] \<and> (\<exists>sv. map_of r ''service'' = Some sv \<and> sv \<noteq> [])))"
proof -
  let ?Q = "\<lambda>ts lv msg.
      map_of r ''timestamp'' = Some ts \<and> map_of r ''level'' = Some lv \<and>
      map_of r ''message'' = Some msg \<and> msg \<noteq> [] \<and>
      (grammar_match log_type line \<noteq> None \<and> log_type = ''apache'' \<longrightarrow>
         map_of r ''service'' = None) \<and>
      (grammar_match log_type line \<noteq> None \<and> log_type = ''nginx'' \<longrightarrow>
         map_of r ''service'' = None \<and> ts \<noteq> []) \<and>
      (grammar_match log_type line = None \<or> log_type = ''syslog'' \<or>
       log_type = ''custom'' \<longrightarrow>
         ts \<noteq> [] \<and> lv \<noteq> [] \<and> (\<exists>sv. map_of r ''service'' = Some sv \<and> sv \<noteq> []))"
  have fields: "\<exists>ts lv msg. ?Q ts lv msg"
  proof (cases "grammar_match log_type line")
    case None
    let ?P = "\<lambda>level. sublist level (upper line)"
    from assms None obtain level where
      f: "find ?P (map fst severity_levels) = Some level"
      and r: "r = [(''timestamp'', strftime now), (''level'', level),
                   (''service'', ''unknown''), (''message'', strip line)]"
      by (auto simp: parse_line_alt split: option.splits)
    from f have l: "level \<in> set (map fst severity_levels)" "sublist level (upper line)"
      unfolding find_Some_iff by auto
    from keyword_needs_text[OF l(2) l(1)] have m: "strip line \<noteq> []" .
    from level_starts_with_letter[OF l(1)] have lv: "level \<noteq> []" by simp
    have q: "?Q (strftime now) level (strip line)"
      using None m lv strftime_nonempty[of now] unfolding r by simp
    show ?thesis
      by (rule exI[of _ "strftime now"], rule exI[of _ level], rule exI[of _ "strip line"],
          rule q)
  next
    case (Some g)
    with assms have rg: "r = g" by (simp add: parse_line_alt)
    from grammar_match_fields[OF Some] show ?thesis
    proof (elim disjE conjE exE)
      fix ts sv lv msg
      assume t: "log_type = ''syslog''"
        and g: "g = [(''timestamp'', ts), (''service'', sv), (''level'', lv), (''message'', msg)]"
        and ne: "ts \<noteq> []" "sv \<noteq> []" "lv \<noteq> []" "msg \<noteq> []"
      have q: "?Q ts lv msg" using ne t unfolding rg g by simp
      show ?thesis by (rule exI[of _ ts], rule exI[of _ lv], rule exI[of _ msg], rule q)
    next
      fix ts lv sv msg
      assume t: "log_type = ''custom''"
        and g: "g = [(''timestamp'', ts), (''level'', lv), (''service'', sv), (''message'', msg)]"
        and ne: "ts \<noteq> []" "lv \<noteq> []" "sv \<noteq> []" "msg \<noteq> []"
      have q: "?Q ts lv msg" using ne t unfolding rg g by simp
      show ?thesis by (rule exI[of _ ts], rule exI[of _ lv], rule exI[of _ msg], rule q)
    next
      fix ts lv msg
      assume t: "log_type = ''nginx''"
        and g: "g = [(''timestamp'', ts), (''level'', lv), (''message'', msg)]"
        and ne: "ts \<noteq> []" "msg \<noteq> []"
      have q: "?Q ts lv msg" using ne t Some unfolding rg g by simp
      show ?thesis by (rule exI[of _ ts], rule exI[of _ lv], rule exI[of _ msg], rule q)
    next
      fix ts lv msg
      assume t: "log_type = ''apache''"
        and g: "g = [(''timestamp'', ts), (''level'', lv), (''message'', msg)]"
        and ne: "msg \<noteq> []"
      have q: "?Q ts lv msg" using ne t Some unfolding rg g by simp
      show ?thesis by (rule exI[of _ ts], rule exI[of _ lv], rule exI[of _ msg], rule q)
    qed
  qed
  then have "r \<noteq> []" by fastforce
  moreover have "line \<noteq> []"
  proof
    assume "line = []"
    then have "strip line = []" by (simp add: strip_def)
    from parse_line_unparseable_blank[OF this] assms show False by simp
  qed
  ultimately have "tail_log_line now current_time log_type line stats = update current_time r stats"
    using assms by (simp add: tail_log_line_def)
  with fields show ?thesis by (rule conjI[rotated])
qed

theorem parse_line_fields_witness:
  "parse_line \<lparr>year = 2024, month = 1, day = 15, hour = 10, minute = 23, second = 45\<rparr>
     ''2024-01-15 10:23:45 - INFO - auth - user logged in'' ''custom'' =
     Some [(''timestamp'', ''2024-01-15 10:23:45''), (''level'', ''INFO''),
           (''service'', ''auth''), (''message'', ''user logged in'')] \<and>
   tail_log_line \<lparr>year = 2024, month = 1, day = 15, hour = 10, minute = 23, second = 45\<rparr> 0
     ''custom'' ''2024-01-15 10:23:45 - INFO - auth - user logged in''
     (PerformanceStats_init 300 0) =
     update 0 [(''timestamp'', ''2024-01-15 10:23:45''), (''level'', ''INFO''),
               (''service'', ''auth''), (''message'', ''user logged in'')]
       (PerformanceStats_init 300 0)"
proof -
  have h: "parse_line \<lparr>year = 2024, month = 1, day = 15, hour = 10, minute = 23, second = 45\<rparr>
     ''2024-01-15 10:23:45 - INFO - auth - user logged in'' ''custom'' =
     Some [(''timestamp'', ''2024-01-15 10:23:45''), (''level'', ''INFO''),
           (''service'', ''auth''), (''message'', ''user logged in'')]"
    by code_simp
  from parse_line_fields[OF h, of 0 "PerformanceStats_init 300 0"]
  have "tail_log_line \<lparr>year = 2024, month = 1, day = 15, hour = 10, minute = 23, second = 45\<rparr> 0
     ''custom'' ''2024-01-15 10:23:45 - INFO - auth - user logged in''
     (PerformanceStats_init 300 0) =
     update 0 [(''timestamp'', ''2024-01-15 10:23:45''), (''level'', ''INFO''),
               (''service'', ''auth''), (''message'', ''user logged in'')]
       (PerformanceStats_init 300 0)"
    by (rule conjunct1)
  with h show ?thesis by (rule conjI)
qed

theorem parse_line_entry_without_service:
  "parse_line \<lparr>year = 2024, month = 1, day = 15, hour = 10, minute = 23, second = 45\<rparr>
     ''2024/01/15 10:23:45 [error] 1234#0: *5 open() failed'' ''nginx'' =
     Some [(''timestamp'', ''2024/01/15 10:23:45''), (''level'', ''error''),
           (''message'', ''open() failed'')] \<and>
   map_of [(''timestamp'', ''2024/01/15 10:23:45''), (''level'', ''error''),
           (''message'', ''open() failed'')] ''service'' = None \<and>
   parse_line \<lparr>year = 2024, month = 1, day = 15, hour = 10, minute = 23, second = 45\<rparr>
     ''[] [] [pid 1] [client ] x'' ''apache'' =
     Some [(''timestamp'', ''''), (''level'', ''''), (''message'', ''x'')]"
proof -
  have 1: "grammar_match ''nginx'' ''2024/01/15 10:23:45 [error] 1234#0: *5 open() failed'' =
     Some [(''timestamp'', ''2024/01/15 10:23:45''), (''level'', ''error''),
           (''message'', ''open() failed'')]"
    by code_simp
  have 2: "grammar_match ''apache'' ''[] [] [pid 1] [client ] x'' =
     Some [(''timestamp'', ''''), (''level'', ''''), (''message'', ''x'')]"
    by code_simp
  from 1 2 show ?thesis by (simp add: parse_line_alt)
qed

section \<open>Rounding to the nearest float\<close>

lemma round_half_even_error: "\<bar>of_int (round_half_even y) - y\<bar> \<le> 1 / 2"
proof -
  have "of_int \<lfloor>y\<rfloor> \<le> y" "y < of_int \<lfloor>y\<rfloor> + 1" by linarith+
  then show ?thesis by (auto simp: round_half_even_def Let_def)
qed

lemma round_half_even_nonneg: "0 \<le> y \<Longrightarrow> 0 \<le> round_half_even y"
proof -
  assume "0 \<le> y"
  then have "0 \<le> \<lfloor>y\<rfloor>" by simp
  then show ?thesis by (auto simp: round_half_even_def Let_def)
qed

lemma ilog2_bounds:
  assumes "0 < x"
  shows "2 powi ilog2 x \<le> x \<and> x < 2 powi (ilog2 x + 1)"
proof -
  obtain p q where pq: "quotient_of x = (p, q)" by (cases "quotient_of x")
  then have q: "0 < q" by (rule quotient_of_denom_pos)
  from pq have x: "x = of_int p / of_int q" by (rule quotient_of_div)
  with assms q have p: "0 < p" by (simp add: zero_less_divide_iff)
  define A :: rat where "A = 2 powi (bitlen p - 1)"
  define B :: rat where "B = 2 powi (bitlen q - 1)"
  define P :: rat where "P = of_int p"
  define Q :: rat where "Q = of_int q"
  have bp: "1 \<le> bitlen p" and bq: "1 \<le> bitlen q"
    using p q bitlen_eq_zero_iff[of p] bitlen_eq_zero_iff[of q]
      bitlen_nonneg[of p] bitlen_nonneg[of q] by linarith+
  have AB: "0 < A" "0 < B" by (simp_all add: A_def B_def)
  have PQ: "0 < P" "0 < Q" using p q by (simp_all add: P_def Q_def)
  have "2 ^ nat (bitlen p - 1) \<le> p \<and> p < 2 ^ nat (bitlen p)" using p by (rule bitlen_bounds)
  then have "(of_int (2 ^ nat (bitlen p - 1)) :: rat) \<le> of_int p"
    "(of_int p :: rat) < of_int (2 ^ nat (bitlen p))"
    by (simp_all only: of_int_le_iff of_int_less_iff)
  then have Pb: "A \<le> P" "P < 2 * A"
    using bp by (simp_all add: A_def P_def power_int_def nat_diff_distrib flip: power_Suc)
  have "2 ^ nat (bitlen q - 1) \<le> q \<and> q < 2 ^ nat (bitlen q)" using q by (rule bitlen_bounds)
  then have "(of_int (2 ^ nat (bitlen q - 1)) :: rat) \<le> of_int q"
    "(of_int q :: rat) < of_int (2 ^ nat (bitlen q))"
    by (simp_all only: of_int_le_iff of_int_less_iff)
  then have Qb: "B \<le> Q" "Q < 2 * B"
    using bq by (simp_all add: B_def Q_def power_int_def nat_diff_distrib flip: power_Suc)
  define e where "e = bitlen p - bitlen q"
  have e: "2 powi e = A / B"
    by (simp add: e_def A_def B_def power_int_diff)
  have e1: "2 powi (e + 1) = 2 * A / B"
    by (simp add: e power_int_add)
  have e0: "2 powi (e - 1) = A / (2 * B)"
    by (simp add: e power_int_diff)
  have xPQ: "x = P / Q" by (simp add: x P_def Q_def)
  have "P * B < 2 * A * Q"
  proof -
    have "P * B < 2 * A * B" using Pb(2) AB by simp
    also have "\<dots> \<le> 2 * A * Q" using Qb(1) AB by simp
    finally show ?thesis .
  qed
  then have "P / Q < 2 * A / B"
    using AB PQ by (simp add: field_simps)
  then have up: "x < 2 powi (e + 1)"
    by (simp only: e1 xPQ)
  have "A * Q < 2 * B * P"
  proof -
    have "A * Q < A * (2 * B)" using Qb(2) AB by simp
    also have "\<dots> \<le> P * (2 * B)" using Pb(1) AB by simp
    finally show ?thesis by (simp add: mult.commute)
  qed
  then have "A / (2 * B) < P / Q"
    using AB PQ by (simp add: field_simps)
  then have lo: "2 powi (e - 1) < x"
    by (simp only: e0 xPQ)
  have il: "ilog2 x = (if 2 powi e \<le> x then e else e - 1)"
    by (simp add: ilog2_def pq e_def Let_def)
  show ?thesis
  proof (cases "2 powi e \<le> x")
    case True
    with il up show ?thesis by simp
  next
    case False
    with il lo show ?thesis by simp
  qed
qed

lemma round_double_nonneg: "0 \<le> x \<Longrightarrow> 0 \<le> round_double x"
  by (auto simp: round_double_def Let_def intro!: mult_nonneg_nonneg round_half_even_nonneg)

lemma round_double_error:
  assumes "0 \<le> x"
  shows "\<bar>round_double x - x\<bar> \<le> x / 2 ^ 53 + 1 / 2 ^ 1075"
proof (cases "x = 0")
  case True
  then show ?thesis by (simp add: round_double_def)
next
  case False
  with assms have pos: "0 < x" by simp
  define e where "e = max (ilog2 x) (- 1022)"
  define u :: rat where "u = 2 powi (e - 52)"
  have u: "0 < u" by (simp add: u_def)
  have rd: "round_double x = of_int (round_half_even (x / u)) * u"
    using False by (simp add: round_double_def Let_def e_def u_def)
  have "round_double x - x = (of_int (round_half_even (x / u)) - x / u) * u"
    using u by (simp add: rd field_simps)
  then have "\<bar>round_double x - x\<bar> = \<bar>of_int (round_half_even (x / u)) - x / u\<bar> * u"
    using u by (simp add: abs_mult)
  also have "\<dots> \<le> 1 / 2 * u"
    using round_half_even_error[of "x / u"] u by (intro mult_right_mono) simp_all
  finally have h: "\<bar>round_double x - x\<bar> \<le> u / 2" by simp
  have "u / 2 \<le> x / 2 ^ 53 + 1 / 2 ^ 1075"
  proof (cases "- 1022 \<le> ilog2 x")
    case True
    then have "u = 2 powi ilog2 x / 2 ^ 52"
      by (simp add: u_def e_def power_int_diff)
    also have "\<dots> \<le> x / 2 ^ 52"
      using ilog2_bounds[OF pos] by (intro divide_right_mono) simp_all
    finally have "u / 2 \<le> x / 2 ^ 53" by simp
    then show ?thesis by simp
  next
    case False
    then have "u = 2 powi (- 1074)" by (simp add: u_def e_def)
    then have "u / 2 = 1 / 2 ^ 1075" by (simp add: power_int_minus field_simps)
    with assms show ?thesis by simp
  qed
  with h show ?thesis by linarith
qed

section \<open>PerformanceStats.get_error_rate\<close>

lemma error_rate_in_range:
  fixes e l :: nat
  assumes "l \<noteq> 0" and "e \<le> l"
  shows "\<exists>q p. int_true_div e l = Inr q \<and> float_mul q 100 = Finite p \<and>
           \<bar>p - 100 * (of_nat e / of_nat l)\<bar> \<le> 1 / 2 ^ 45"
proof -
  define x :: rat where "x = of_int (int e) / of_int (int l)"
  define q where "q = round_double x"
  define p where "p = round_double (q * 100)"
  define b :: rat where "b = 1 / 2 ^ 1075"
  have c: "(2::rat) ^ 53 = 9007199254740992" "(2::rat) ^ 45 = 35184372088832" by simp_all
  have b: "0 \<le> b" "b \<le> 1 / 9223372036854775808" by (simp_all add: b_def)
  have big: "(1000::rat) < 2 ^ 1024" by simp
  have x: "0 \<le> x" "x \<le> 1" using assms by (simp_all add: x_def)
  have xq: "\<bar>q - x\<bar> \<le> x / 9007199254740992 + b"
    using round_double_error[OF x(1)] by (simp only: q_def b_def c)
  have q0: "0 \<le> q" unfolding q_def using x(1) by (rule round_double_nonneg)
  then have y0: "0 \<le> q * 100" by simp
  have qp: "\<bar>p - q * 100\<bar> \<le> q * 100 / 9007199254740992 + b"
    using round_double_error[OF y0] by (simp only: p_def b_def c)
  from xq x b have q2: "q \<le> 2" by linarith
  with big have "\<not> 2 ^ 1024 \<le> q" by linarith
  then have d: "int_true_div e l = Inr q"
    using assms(1) by (simp add: int_true_div_def q_def x_def Let_def)
  from qp q2 q0 b have "p \<le> 1000" by linarith
  with big have "\<not> 2 ^ 1024 \<le> p" by linarith
  then have m: "float_mul q 100 = Finite p"
    by (simp add: float_mul_def p_def Let_def)
  from xq qp x b have "\<bar>p - 100 * x\<bar> \<le> 1 / 35184372088832" by linarith
  then have "\<bar>p - 100 * x\<bar> \<le> 1 / 2 ^ 45" by (simp only: c)
  moreover have "x = of_nat e / of_nat l" by (simp add: x_def)
  ultimately show ?thesis using d m by blast
qed

lemma error_rate_3_of_10:
  "int_true_div 3 10 = Inr (5404319552844595 / 18014398509481984)"
  "float_mul (5404319552844595 / 18014398509481984) 100 = Finite 30"
  by code_simp+

text \<open>
  Claim C7.  \<open>get_error_rate\<close> returns the integer 0 when \<open>log_count\<close> is 0.  Otherwise
  it returns \<open>error_count / log_count * 100\<close> as Python computes it: the quotient of the
  two integers rounded to the nearest float, times 100, rounded again; when
  \<open>error_count\<close> does not exceed \<open>log_count\<close> (as in every state reached by \<open>update\<close>)
  this raises no exception and the float returned differs from the exact percentage by
  at most \<open>2 powi -45\<close>.  With 3 errors in 10 entries the float returned is exactly 30.
\<close>

theorem get_error_rate_value:
  "(log_count s = 0 \<longrightarrow> get_error_rate s = Inr (PyInt 0)) \<and>
   (log_count s \<noteq> 0 \<longrightarrow>
      get_error_rate s =
        (case int_true_div (error_count s) (log_count s) of
           Inl e \<Rightarrow> Inl e
         | Inr q \<Rightarrow> Inr (PyFloat (float_mul q 100)))) \<and>
   (log_count s \<noteq> 0 \<and> error_count s \<le> log_count s \<longrightarrow>
      (\<exists>p. get_error_rate s = Inr (PyFloat (Finite p)) \<and>
           \<bar>p - 100 * (of_nat (error_count s) / of_nat (log_count s))\<bar> \<le> 1 / 2 ^ 45)) \<and>
   (log_count s = 10 \<and> error_count s = 3 \<longrightarrow>
      get_error_rate s = Inr (PyFloat (Finite 30)))"
proof (intro conjI impI)
  assume "log_count s = 0"
  then show "get_error_rate s = Inr (PyInt 0)" by (simp add: get_error_rate_def)
next
  assume "log_count s \<noteq> 0"
  then show "get_error_rate s =
      (case int_true_div (error_count s) (log_count s) of
         Inl e \<Rightarrow> Inl e
       | Inr q \<Rightarrow> Inr (PyFloat (float_mul q 100)))"
    by (simp add: get_error_rate_def)
next
  assume a: "log_count s \<noteq> 0 \<and> error_count s \<le> log_count s"
  with error_rate_in_range[of "log_count s" "error_count s"] obtain q p where
    "int_true_div (error_count s) (log_count s) = Inr q" "float_mul q 100 = Finite p"
    "\<bar>p - 100 * (of_nat (error_count s) / of_nat (log_count s))\<bar> \<le> 1 / 2 ^ 45"
    by blast
  with a show "\<exists>p. get_error_rate s = Inr (PyFloat (Finite p)) \<and>
      \<bar>p - 100 * (of_nat (error_count s) / of_nat (log_count s))\<bar> \<le> 1 / 2 ^ 45"
    by (intro exI[of _ p]) (simp add: get_error_rate_def)
next
  assume "log_count s = 10 \<and> error_count s = 3"
  then show "get_error_rate s = Inr (PyFloat (Finite 30))"
    by (simp add: get_error_rate_def error_rate_3_of_10)
qed

theorem get_error_rate_value_witness:
  "log_count (PerformanceStats_init 300 0) = 0 \<and>
   get_error_rate (PerformanceStats_init 300 0) = Inr (PyInt 0) \<and>
   log_count (updates (PerformanceStats_init 300 0)
      (replicate 3 (0, [(''level'', ''ERROR'')]) @ replicate 7 (0, [(''level'', ''INFO'')]))) = 10 \<and>
   error_count (updates (PerformanceStats_init 300 0)
      (replicate 3 (0, [(''level'', ''ERROR'')]) @ replicate 7 (0, [(''level'', ''INFO'')]))) = 3 \<and>
   get_error_rate (updates (PerformanceStats_init 300 0)
      (replicate 3 (0, [(''level'', ''ERROR'')]) @ replicate 7 (0, [(''level'', ''INFO'')])))
     = Inr (PyFloat (Finite 30))"
proof -
  let ?s = "updates (PerformanceStats_init 300 0)
      (replicate 3 (0, [(''level'', ''ERROR'')]) @ replicate 7 (0, [(''level'', ''INFO'')]))"
  have z: "log_count (PerformanceStats_init 300 0) = 0" by (simp add: PerformanceStats_init_def)
  have u: "upper ''ERROR'' = ''ERROR''" "upper ''INFO'' = ''INFO''" by (simp_all add: char_defs)
  have c: "log_count ?s = 10" "error_count ?s = 3"
    by (simp_all add: numeral_eq_Suc update_def dict_get_def u PerformanceStats_init_def Let_def)
  from get_error_rate_value[of "PerformanceStats_init 300 0"] z
  have 1: "get_error_rate (PerformanceStats_init 300 0) = Inr (PyInt 0)" by blast
  from get_error_rate_value[of ?s] c
  have 2: "get_error_rate ?s = Inr (PyFloat (Finite 30))" by blast
  from z 1 c 2 show ?thesis by (intro conjI) assumption+
qed

end
